theory Spec2Isabelle
  imports Main "HOL-Library.Sublist"
begin

section \<open>The debounced watch engine: \<^verbatim>\<open>delayWatch\<close>\<close>

text \<open>
  \<^verbatim>\<open>delayWatch\<close> registers one handler on the file watcher. The handler is an async
  function: it runs synchronously up to \<^verbatim>\<open>await options.onWillTrigger?.(...)\<close>, where
  it is suspended until the awaited promise settles, and the timer it arms runs its
  callback in a later turn of the event loop. The model makes the event loop explicit:
  a state holds the two variables of the closure (\<open>timer\<close>, \<open>isProcessing\<close>), the
  timeouts that are live in the runtime, the handler invocations suspended at the
  \<^verbatim>\<open>await\<close>, the clock, and the calls made to the user's callbacks so far. A schedule is
  a list of actions: time passes, the watcher delivers an event, the awaited promise
  settles, a due timeout runs.
\<close>

datatype eventName = add | addDir | change | unlink | unlinkDir

type_synonym Stats = nat

text \<open>The arguments of the watcher's \<^verbatim>\<open>all\<close> event: eventName, filepath, stats.\<close>

type_synonym ChangeEvent = "eventName \<times> string \<times> Stats option"

text \<open>
  The options that matter to the engine. The two callbacks are optional in the source
  (\<^verbatim>\<open>options.onWillTrigger?.(...)\<close>): the field says whether the callback is supplied. What
  a supplied callback does is the caller's business; whether it returns or throws is
  given by the schedule.
\<close>

record delayWatch_options =
  onWillTrigger :: bool
  onTrigger :: bool
  delay :: nat

datatype outcome = Returns | Throws

text \<open>
  What the engine does to the outside: the calls of the two callbacks, the rejection of
  the handler's own promise (the error of \<^verbatim>\<open>onWillTrigger\<close> propagated by the \<^verbatim>\<open>await\<close>), and
  an error of \<^verbatim>\<open>onTrigger\<close> leaving the timer callback.
\<close>

datatype call =
    WillTrigger ChangeEvent
  | Trigger ChangeEvent
  | HandlerRejected ChangeEvent
  | TriggerFailed ChangeEvent

record watch =
  timer :: "nat option"
  isProcessing :: bool
  now :: nat
  timeouts :: "(nat \<times> nat \<times> ChangeEvent) list"
  next_handle :: nat
  awaiting :: "ChangeEvent list"
  calls :: "(nat \<times> call) list"

definition init_watch :: watch where
  "init_watch =
     \<lparr>timer = None, isProcessing = False, now = 0, timeouts = [], next_handle = 0,
      awaiting = [], calls = []\<rparr>"

text \<open>
  \<^verbatim>\<open>setTimeout(cb, ms)\<close>: a new live timeout (handle, due time, the event captured by the
  callback's closure); the handle is returned. \<^verbatim>\<open>clearTimeout(h)\<close> removes it.
\<close>

definition setTimeout :: "nat \<Rightarrow> ChangeEvent \<Rightarrow> watch \<Rightarrow> nat \<times> watch" where
  "setTimeout ms e w =
     (next_handle w,
      w\<lparr>timeouts := timeouts w @ [(next_handle w, now w + ms, e)],
        next_handle := Suc (next_handle w)\<rparr>)"

definition clearTimeout :: "nat \<Rightarrow> watch \<Rightarrow> watch" where
  "clearTimeout h w = w\<lparr>timeouts := filter (\<lambda>t. fst t \<noteq> h) (timeouts w)\<rparr>"

text \<open>
  The end of the handler (source lines 179 to 185):
  \<^verbatim>\<open>timer = setTimeout(..., options.delay); isProcessing = false\<close>.
\<close>

definition set_new_timer :: "delayWatch_options \<Rightarrow> ChangeEvent \<Rightarrow> watch \<Rightarrow> watch" where
  "set_new_timer opts e w =
     (case setTimeout (delay opts) e w of
        (h, w') \<Rightarrow> w'\<lparr>timer := Some h, isProcessing := False\<rparr>)"

text \<open>
  The handler, from its entry to its first suspension or its end (source lines 164 to
  186). With \<open>isProcessing\<close> set it returns at once. With a timer armed it clears the timer
  and arms a new one, all in one turn. Otherwise it calls \<^verbatim>\<open>options.onWillTrigger\<close> (when
  supplied) and is suspended at the \<^verbatim>\<open>await\<close>, which yields even when there is no
  callback.
\<close>

definition delayWatch_onWillTrigger :: "delayWatch_options \<Rightarrow> ChangeEvent \<Rightarrow> watch \<Rightarrow> watch" where
  "delayWatch_onWillTrigger opts e w =
     (if isProcessing w then w
      else
        (case timer w of
           Some h \<Rightarrow> set_new_timer opts e ((clearTimeout h (w\<lparr>isProcessing := True\<rparr>))\<lparr>timer := None\<rparr>)
         | None \<Rightarrow>
             w\<lparr>isProcessing := True,
               awaiting := awaiting w @ [e],
               calls := calls w @ (if onWillTrigger opts then [(now w, WillTrigger e)] else [])\<rparr>))"

text \<open>
  The awaited promise settles and the oldest suspended invocation resumes. When it is
  fulfilled the handler arms the timer and resets \<open>isProcessing\<close>. When it is rejected the
  \<^verbatim>\<open>await\<close> throws, the handler's promise is rejected and the rest of the body is skipped:
  there is no \<^verbatim>\<open>try\<close> or \<^verbatim>\<open>finally\<close>, so \<open>isProcessing\<close> stays set. Without a callback
  the awaited value is \<^verbatim>\<open>undefined\<close>, which cannot reject.
\<close>

definition onWillTrigger_settled :: "delayWatch_options \<Rightarrow> outcome \<Rightarrow> watch \<Rightarrow> watch option" where
  "onWillTrigger_settled opts r w =
     (case awaiting w of
        [] \<Rightarrow> None
      | e # es \<Rightarrow>
          (case r of
             Returns \<Rightarrow> Some (set_new_timer opts e (w\<lparr>awaiting := es\<rparr>))
           | Throws \<Rightarrow>
               if onWillTrigger opts
               then Some (w\<lparr>awaiting := es, calls := calls w @ [(now w, HandlerRejected e)]\<rparr>)
               else None))"

text \<open>
  The timer callback (source lines 180 to 183): \<^verbatim>\<open>timer = undefined\<close>, then
  \<^verbatim>\<open>options.onTrigger?.(...)\<close> with the captured event, not awaited.
\<close>

definition timer_callback :: "delayWatch_options \<Rightarrow> ChangeEvent \<Rightarrow> outcome \<Rightarrow> watch \<Rightarrow> watch" where
  "timer_callback opts e r w =
     w\<lparr>timer := None,
       calls := calls w @
         (if onTrigger opts
          then (now w, Trigger e) # (case r of Returns \<Rightarrow> [] | Throws \<Rightarrow> [(now w, TriggerFailed e)])
          else [])\<rparr>"

text \<open>
  The runtime runs the first live timeout that is due; a timeout never runs before its
  due time, and none runs when none is due.
\<close>

definition fire :: "delayWatch_options \<Rightarrow> outcome \<Rightarrow> watch \<Rightarrow> watch option" where
  "fire opts r w =
     (case filter (\<lambda>t. fst (snd t) \<le> now w) (timeouts w) of
        [] \<Rightarrow> None
      | t # _ \<Rightarrow>
          if r = Throws \<and> \<not> onTrigger opts then None
          else Some (timer_callback opts (snd (snd t)) r (clearTimeout (fst t) w)))"

datatype action = Advance nat | Ev ChangeEvent | Settle outcome | Fire outcome

fun step :: "delayWatch_options \<Rightarrow> action \<Rightarrow> watch \<Rightarrow> watch option" where
  "step opts (Advance d) w = Some (w\<lparr>now := now w + d\<rparr>)"
| "step opts (Ev e) w = Some (delayWatch_onWillTrigger opts e w)"
| "step opts (Settle r) w = onWillTrigger_settled opts r w"
| "step opts (Fire r) w = fire opts r w"

fun run :: "delayWatch_options \<Rightarrow> watch \<Rightarrow> action list \<Rightarrow> watch option" where
  "run opts w [] = Some w"
| "run opts w (a # as) = (case step opts a w of None \<Rightarrow> None | Some w' \<Rightarrow> run opts w' as)"

text \<open>The states a watch can be in: those some schedule leads to from the initial one.\<close>

inductive reachable :: "delayWatch_options \<Rightarrow> watch \<Rightarrow> bool" for opts where
  reachable_init: "reachable opts init_watch"
| reachable_step: "reachable opts w \<Longrightarrow> step opts a w = Some w' \<Longrightarrow> reachable opts w'"

text \<open>
  The invariant of the engine: the runtime holds exactly the timeout the variable \<open>timer\<close>
  names and no other; a live timeout is due at most \<open>delay\<close> ms from now; at most one
  invocation is suspended; while one is suspended, and ever after a rejection,
  \<open>isProcessing\<close> is set and no timer is armed.
\<close>

definition watch_inv :: "delayWatch_options \<Rightarrow> watch \<Rightarrow> bool" where
  "watch_inv opts w =
     (map fst (timeouts w) = (case timer w of None \<Rightarrow> [] | Some h \<Rightarrow> [h]) \<and>
      list_all (\<lambda>t. fst (snd t) \<le> now w + delay opts) (timeouts w) \<and>
      length (awaiting w) \<le> 1 \<and>
      (if isProcessing w then timer w = None else awaiting w = []))"

text \<open>A window is open from the leading edge until the timer callback has run.\<close>

definition window_open :: "watch \<Rightarrow> bool" where
  "window_open w = (isProcessing w \<or> timer w \<noteq> None)"

text \<open>
  The leading edge: the states in which the handler reaches the call of
  \<^verbatim>\<open>options.onWillTrigger\<close>.
\<close>

definition leading_edge :: "watch \<Rightarrow> bool" where
  "leading_edge w = (\<not> isProcessing w \<and> timer w = None)"

text \<open>Counting the calls of \<^verbatim>\<open>options.onWillTrigger\<close> made so far.\<close>

fun is_WillTrigger :: "nat \<times> call \<Rightarrow> bool" where
  "is_WillTrigger (t, WillTrigger e) = True"
| "is_WillTrigger (t, c) = False"

definition will_count :: "watch \<Rightarrow> nat" where
  "will_count w = length (filter is_WillTrigger (calls w))"

fun is_Fire :: "action \<Rightarrow> bool" where
  "is_Fire (Fire r) = True"
| "is_Fire a = False"

subsection \<open>Schedules with real timing\<close>

text \<open>
  \<open>quiet opts d\<close>: \<open>d\<close> ms pass in which the watcher delivers nothing and the event loop is
  idle, so that a timeout falling due in the interval runs at its due time (at once when
  it is overdue), its \<^verbatim>\<open>onTrigger\<close> returning normally. \<open>timed_run\<close> runs a list of
  inputs, each after a quiet interval of the given length.
\<close>

definition quiet :: "delayWatch_options \<Rightarrow> nat \<Rightarrow> watch \<Rightarrow> watch option" where
  "quiet opts d w =
     (case filter (\<lambda>t. fst (snd t) \<le> now w + d) (timeouts w) of
        [] \<Rightarrow> run opts w [Advance d]
      | t # _ \<Rightarrow>
          run opts w
            [Advance (fst (snd t) - now w), Fire Returns,
             Advance (now w + d - max (now w) (fst (snd t)))])"

fun timed_run :: "delayWatch_options \<Rightarrow> (nat \<times> action) list \<Rightarrow> watch \<Rightarrow> watch option" where
  "timed_run opts [] w = Some w"
| "timed_run opts ((g, a) # r) w =
     (case quiet opts g w of
        None \<Rightarrow> None
      | Some w1 \<Rightarrow> (case step opts a w1 of None \<Rightarrow> None | Some w2 \<Rightarrow> timed_run opts r w2))"

text \<open>
  A burst: every event follows the one before it by less than \<open>D\<close> ms. The first gap is
  counted from a point \<open>s\<close> ms after the previous event.
\<close>

fun within_delay :: "nat \<Rightarrow> nat \<Rightarrow> (nat \<times> ChangeEvent) list \<Rightarrow> bool" where
  "within_delay D s [] = True"
| "within_delay D s ((g, e) # r) = (s + g < D \<and> within_delay D 0 r)"

definition deliveries :: "(nat \<times> ChangeEvent) list \<Rightarrow> (nat \<times> action) list" where
  "deliveries evs = map (\<lambda>(g, e). (g, Ev e)) evs"

text \<open>
  The data of the running example: a watch with both callbacks and the default delay of
  1000 ms, and change events for two files.
\<close>

definition example_options :: delayWatch_options where
  "example_options = \<lparr>onWillTrigger = True, onTrigger = True, delay = 1000\<rparr>"

definition event_a :: ChangeEvent where
  "event_a = (change, ''src/a.ts'', None)"

definition event_b :: ChangeEvent where
  "event_b = (change, ''src/b.ts'', None)"

text \<open>The state of the example watch after the first event has been handled.\<close>

definition example_armed :: watch where
  "example_armed =
     \<lparr>timer = Some 0, isProcessing = False, now = 0, timeouts = [(0, 1000, event_a)],
      next_handle = 1, awaiting = [], calls = [(0, WillTrigger event_a)]\<rparr>"

section \<open>The dev session: \<^verbatim>\<open>cmdDev\<close>\<close>

subsection \<open>Configuration\<close>

datatype sync_type = symlink | copy

text \<open>An entry of \<^verbatim>\<open>conf.sync\<close> (fields \<^verbatim>\<open>type\<close>, \<^verbatim>\<open>from\<close>, \<^verbatim>\<open>to\<close>).\<close>

record sync_item =
  sync_type :: sync_type
  sync_from :: string
  sync_to :: string

text \<open>
  An entry of \<^verbatim>\<open>conf.proto\<close>. The optional \<^verbatim>\<open>apiDir\<close> is tested for truthiness in the
  source: it counts as configured when it is a non-empty string.
\<close>

record proto_item =
  ptlDir :: string
  output_path :: string
  apiDir :: "string option"

definition truthy :: "string option \<Rightarrow> bool" where
  "truthy s = (case s of None \<Rightarrow> False | Some d \<Rightarrow> d \<noteq> [])"

text \<open>\<^verbatim>\<open>conf.dev\<close>; every field is optional and has a default (source lines 24 to 28).\<close>

record dev_conf =
  dev_autoProto :: "bool option"
  dev_autoSync :: "bool option"
  dev_autoApi :: "bool option"
  dev_command :: "string option"
  dev_watch :: "string option"
  dev_delay :: "nat option"

record TsrpcConfig =
  proto :: "proto_item list option"
  sync :: "sync_item list option"
  dev :: "dev_conf option"
  verbose :: bool

definition DEFAULT_DELAY :: nat where
  "DEFAULT_DELAY = 1000"

text \<open>\<^verbatim>\<open>conf.dev?.field ?? default\<close>.\<close>

definition dev_field :: "TsrpcConfig \<Rightarrow> (dev_conf \<Rightarrow> 'a option) \<Rightarrow> 'a \<Rightarrow> 'a" where
  "dev_field conf field dflt =
     (case dev conf of
        None \<Rightarrow> dflt
      | Some d \<Rightarrow> (case field d of None \<Rightarrow> dflt | Some v \<Rightarrow> v))"

definition autoProto :: "TsrpcConfig \<Rightarrow> bool" where
  "autoProto conf = dev_field conf dev_autoProto True"

definition autoSync :: "TsrpcConfig \<Rightarrow> bool" where
  "autoSync conf = dev_field conf dev_autoSync True"

definition autoApi :: "TsrpcConfig \<Rightarrow> bool" where
  "autoApi conf = dev_field conf dev_autoApi True"

definition watchFiles :: "TsrpcConfig \<Rightarrow> string" where
  "watchFiles conf = dev_field conf dev_watch ''src''"

definition watch_delay :: "TsrpcConfig \<Rightarrow> nat" where
  "watch_delay conf = dev_field conf dev_delay DEFAULT_DELAY"

subsection \<open>The trigger of a copy watch (Auto Copy)\<close>

text \<open>
  The calls the trigger makes to the file system and the console. \<^verbatim>\<open>path.resolve\<close> and
  \<^verbatim>\<open>path.relative\<close> belong to the runtime's library and are parameters of the model.
\<close>

datatype fs_call =
    SyncByConfigItem sync_item
  | Remove string
  | Copy string string
  | Chmod string nat
  | LogCopied string string

definition mode_0444 :: nat where
  "mode_0444 = 4 * 64 + 4 * 8 + 4"

fun name_of :: "eventName \<Rightarrow> string" where
  "name_of add = ''add''"
| "name_of addDir = ''addDir''"
| "name_of change = ''change''"
| "name_of unlink = ''unlink''"
| "name_of unlinkDir = ''unlinkDir''"

definition startsWith :: "string \<Rightarrow> string \<Rightarrow> bool" where
  "startsWith s p = prefix p s"

definition endsWith :: "string \<Rightarrow> string \<Rightarrow> bool" where
  "endsWith s p = suffix p s"

definition dstPath ::
  "(string \<Rightarrow> string \<Rightarrow> string) \<Rightarrow> (string \<Rightarrow> string \<Rightarrow> string) \<Rightarrow> sync_item \<Rightarrow> string \<Rightarrow> string" where
  "dstPath resolve relative confItem filepath =
     resolve (sync_to confItem) (relative (sync_from confItem) filepath)"

text \<open>Whether \<^verbatim>\<open>fse.copy\<close> and \<^verbatim>\<open>fse.chmod\<close> succeed in one run of the trigger.\<close>

record fs_outcome =
  copy_ok :: bool
  chmod_ok :: bool

text \<open>
  The incremental branch (source lines 88 to 102). A rejected \<^verbatim>\<open>await\<close> ends the trigger.
\<close>

definition incremental ::
  "(string \<Rightarrow> string \<Rightarrow> string) \<Rightarrow> (string \<Rightarrow> string \<Rightarrow> string) \<Rightarrow> sync_item \<Rightarrow> fs_outcome \<Rightarrow>
   ChangeEvent \<Rightarrow> fs_call list" where
  "incremental resolve relative confItem oc ev =
     (case ev of (eventName, filepath, stats) \<Rightarrow>
        let dst = dstPath resolve relative confItem filepath in
        if startsWith (name_of eventName) ''unlink'' then [Remove dst]
        else
          Copy filepath dst #
            (if \<not> copy_ok oc then []
             else if \<not> endsWith (name_of eventName) ''Dir''
               then Chmod dst mode_0444 # (if chmod_ok oc then [LogCopied filepath dst] else [])
               else [LogCopied filepath dst]))"

text \<open>
  The state of one copy watch: the variable \<open>isInited\<close>, the bulk syncs that have been
  started and have not settled yet, and the calls made so far. \<open>isInited\<close> is set only
  after \<^verbatim>\<open>await syncByConfigItem(...)\<close> has returned.
\<close>

record autosync =
  isInited :: bool
  bulk_pending :: nat
  fs_calls :: "fs_call list"

definition init_autosync :: autosync where
  "init_autosync = \<lparr>isInited = False, bulk_pending = 0, fs_calls = []\<rparr>"

definition autosync_onTrigger ::
  "(string \<Rightarrow> string \<Rightarrow> string) \<Rightarrow> (string \<Rightarrow> string \<Rightarrow> string) \<Rightarrow> sync_item \<Rightarrow> fs_outcome \<Rightarrow>
   ChangeEvent \<Rightarrow> autosync \<Rightarrow> autosync" where
  "autosync_onTrigger resolve relative confItem oc ev st =
     (if \<not> isInited st
      then st\<lparr>bulk_pending := Suc (bulk_pending st),
              fs_calls := fs_calls st @ [SyncByConfigItem confItem]\<rparr>
      else st\<lparr>fs_calls := fs_calls st @ incremental resolve relative confItem oc ev\<rparr>)"

definition syncByConfigItem_settled :: "outcome \<Rightarrow> autosync \<Rightarrow> autosync option" where
  "syncByConfigItem_settled r st =
     (if bulk_pending st = 0 then None
      else
        (case r of
           Returns \<Rightarrow> Some (st\<lparr>bulk_pending := bulk_pending st - 1, isInited := True\<rparr>)
         | Throws \<Rightarrow> Some (st\<lparr>bulk_pending := bulk_pending st - 1\<rparr>)))"

datatype sync_action = TriggerFired fs_outcome ChangeEvent | BulkSettled outcome

fun autosync_step ::
  "(string \<Rightarrow> string \<Rightarrow> string) \<Rightarrow> (string \<Rightarrow> string \<Rightarrow> string) \<Rightarrow> sync_item \<Rightarrow> sync_action \<Rightarrow>
   autosync \<Rightarrow> autosync option" where
  "autosync_step resolve relative confItem (TriggerFired oc ev) st =
     Some (autosync_onTrigger resolve relative confItem oc ev st)"
| "autosync_step resolve relative confItem (BulkSettled r) st = syncByConfigItem_settled r st"

fun autosync_run ::
  "(string \<Rightarrow> string \<Rightarrow> string) \<Rightarrow> (string \<Rightarrow> string \<Rightarrow> string) \<Rightarrow> sync_item \<Rightarrow> autosync \<Rightarrow>
   sync_action list \<Rightarrow> autosync option" where
  "autosync_run resolve relative confItem st [] = Some st"
| "autosync_run resolve relative confItem st (a # as) =
     (case autosync_step resolve relative confItem a st of
        None \<Rightarrow> None
      | Some st' \<Rightarrow> autosync_run resolve relative confItem st' as)"

fun is_bulk :: "fs_call \<Rightarrow> bool" where
  "is_bulk (SyncByConfigItem c) = True"
| "is_bulk c = False"

text \<open>
  Example data: a copy item with an absolute destination, and stand-ins for the two path
  functions on the paths of the example. For an absolute directory and a plain relative
  path \<^verbatim>\<open>path.resolve\<close> joins the two with a separator; for a path below the directory
  \<^verbatim>\<open>path.relative\<close> is what follows the directory and the separator.
\<close>

definition example_sync :: sync_item where
  "example_sync =
     \<lparr>sync_type = copy, sync_from = ''src/shared'', sync_to = ''/proj/front/shared''\<rparr>"

definition example_relative :: "string \<Rightarrow> string \<Rightarrow> string" where
  "example_relative dir p = drop (Suc (length dir)) p"

definition example_resolve :: "string \<Rightarrow> string \<Rightarrow> string" where
  "example_resolve dir r = dir @ ''/'' @ r"

definition all_ok :: fs_outcome where
  "all_ok = \<lparr>copy_ok = True, chmod_ok = True\<rparr>"

definition shared_a :: ChangeEvent where
  "shared_a = (change, ''src/shared/a.ts'', None)"

definition shared_b :: ChangeEvent where
  "shared_b = (change, ''src/shared/b.ts'', None)"

text \<open>The state of the example watch when its first bulk sync has returned.\<close>

definition example_inited :: autosync where
  "example_inited =
     \<lparr>isInited = True, bulk_pending = 0, fs_calls = [SyncByConfigItem example_sync]\<rparr>"

subsection \<open>The trigger of a schema watch (Auto Proto)\<close>

text \<open>
  How \<^verbatim>\<open>ProtoUtil.genProtoByConfigItem\<close> ends: its promise is rejected with an error (of
  which the message is logged), or fulfilled with the new schema, or with \<^verbatim>\<open>undefined\<close>.
  The schema itself is opaque.
\<close>

datatype 'p gen_result = GenRejected string | GenResolved "'p option"

datatype 'p proto_call =
    GenProtoByConfigItem proto_item "'p option"
  | WriteProto string "'p"
  | ConsoleError string
  | GenApiFiles "'p" string string

text \<open>
  Modelled from the spec: \<^verbatim>\<open>ProtoUtil.genProtoByConfigItem\<close> is not among the sources. The
  specification says that it regenerates the schema artifact from the current sources
  and that a failed regeneration writes no artifact for that trigger. The call is
  recorded with the configuration item and the old snapshot, followed by the write of the
  artifact when the result is a new schema.
\<close>

definition genProtoByConfigItem :: "proto_item \<Rightarrow> 'p option \<Rightarrow> 'p gen_result \<Rightarrow> 'p proto_call list" where
  "genProtoByConfigItem confItem old res =
     GenProtoByConfigItem confItem old #
       (case res of
          GenResolved (Some p) \<Rightarrow> [WriteProto (output_path confItem) p]
        | _ \<Rightarrow> [])"

text \<open>
  The trigger (source lines 49 to 63). The \<^verbatim>\<open>catch\<close> turns a rejection into a logged
  message and the value \<^verbatim>\<open>undefined\<close>. The result is the calls made and how the trigger's
  own promise settles: it can only be rejected by \<^verbatim>\<open>genApiFiles\<close>.
\<close>

definition autoproto_onTrigger ::
  "bool \<Rightarrow> proto_item \<Rightarrow> 'p option \<Rightarrow> 'p gen_result \<Rightarrow> outcome \<Rightarrow> 'p proto_call list \<times> outcome" where
  "autoproto_onTrigger auto_api confItem old res api_result =
     (let newProto = (case res of GenRejected msg \<Rightarrow> None | GenResolved p \<Rightarrow> p);
          cs = genProtoByConfigItem confItem old res @
               (case res of GenRejected msg \<Rightarrow> [ConsoleError msg] | GenResolved p \<Rightarrow> [])
      in case newProto of
           Some p \<Rightarrow>
             if auto_api \<and> truthy (apiDir confItem)
             then (cs @ [GenApiFiles p (ptlDir confItem) (the (apiDir confItem))], api_result)
             else (cs, Returns)
         | None \<Rightarrow> (cs, Returns))"

definition example_proto :: proto_item where
  "example_proto =
     \<lparr>ptlDir = ''src/shared/protocols'', output_path = ''src/shared/protocols/serviceProto.ts'',
      apiDir = Some ''src/api''\<rparr>"

subsection \<open>The start of the session\<close>

datatype watchId = AutoProto nat | AutoSync nat | DEV_SERVER

text \<open>
  What \<^verbatim>\<open>cmdDev\<close> does, in order: the progress lines and the call of \<^verbatim>\<open>ensureSymlink\<close> for
  a link, the load of the old schema for a schema watch, the creation of a watch by
  \<^verbatim>\<open>delayWatch\<close>, and the first call of \<^verbatim>\<open>startDevServer\<close>.
\<close>

datatype setup_call =
    Doing string string
  | EnsureSymlink string string
  | Done
  | LoadOldProto proto_item
  | DelayWatch watchId string nat
  | StartDevServer

datatype setup_error = LinkFailed sync_item | LoadFailed proto_item

text \<open>
  The loop over the links (source lines 31 to 38). \<open>link_ok\<close> says for which items
  \<^verbatim>\<open>ensureSymlink\<close> succeeds; a rejected \<^verbatim>\<open>await\<close> ends \<^verbatim>\<open>cmdDev\<close>.
\<close>

fun auto_link :: "(sync_item \<Rightarrow> bool) \<Rightarrow> sync_item list \<Rightarrow> setup_call list \<times> setup_error option" where
  "auto_link link_ok [] = ([], None)"
| "auto_link link_ok (item # items) =
     (if link_ok item
      then (case auto_link link_ok items of
              (cs, r) \<Rightarrow>
                (Doing (sync_from item) (sync_to item) #
                 EnsureSymlink (sync_from item) (sync_to item) # Done # cs, r))
      else ([Doing (sync_from item) (sync_to item), EnsureSymlink (sync_from item) (sync_to item)],
            Some (LinkFailed item)))"

text \<open>
  The loop over the schema items (source lines 41 to 68); the watch id is the index of the
  item in \<^verbatim>\<open>conf.proto\<close>.
\<close>

fun auto_proto ::
  "(proto_item \<Rightarrow> bool) \<Rightarrow> nat \<Rightarrow> nat \<Rightarrow> proto_item list \<Rightarrow> setup_call list \<times> setup_error option" where
  "auto_proto load_ok dl i [] = ([], None)"
| "auto_proto load_ok dl i (confItem # items) =
     (if load_ok confItem
      then (case auto_proto load_ok dl (Suc i) items of
              (cs, r) \<Rightarrow> (LoadOldProto confItem # DelayWatch (AutoProto i) (ptlDir confItem) dl # cs, r))
      else ([LoadOldProto confItem], Some (LoadFailed confItem)))"

text \<open>The \<^verbatim>\<open>forEach\<close> over \<^verbatim>\<open>conf.sync\<close> (source lines 72 to 107).\<close>

fun auto_copy :: "nat \<Rightarrow> nat \<Rightarrow> sync_item list \<Rightarrow> setup_call list" where
  "auto_copy dl idx [] = []"
| "auto_copy dl idx (confItem # items) =
     (if sync_type confItem \<noteq> copy then auto_copy dl (Suc idx) items
      else DelayWatch (AutoSync idx) (sync_from confItem) dl # auto_copy dl (Suc idx) items)"

text \<open>\<^verbatim>\<open>linkConfs\<close>: the items of \<^verbatim>\<open>conf.sync\<close> of type symlink (none without \<^verbatim>\<open>conf.sync\<close>).\<close>

definition linkConfs :: "TsrpcConfig \<Rightarrow> sync_item list" where
  "linkConfs conf =
     (case sync conf of None \<Rightarrow> [] | Some items \<Rightarrow> filter (\<lambda>v. sync_type v = symlink) items)"

text \<open>The section Auto Proto: \<^verbatim>\<open>if (autoProto && conf.proto)\<close>.\<close>

definition proto_watches :: "(proto_item \<Rightarrow> bool) \<Rightarrow> TsrpcConfig \<Rightarrow> setup_call list \<times> setup_error option" where
  "proto_watches load_ok conf =
     (case proto conf of
        None \<Rightarrow> ([], None)
      | Some items \<Rightarrow>
          if autoProto conf then auto_proto load_ok (watch_delay conf) 0 items else ([], None))"

text \<open>The section Auto Copy: \<^verbatim>\<open>if (autoSync) conf.sync?.forEach(...)\<close>.\<close>

definition copy_watches :: "TsrpcConfig \<Rightarrow> setup_call list" where
  "copy_watches conf =
     (case sync conf of
        None \<Rightarrow> []
      | Some items \<Rightarrow> if autoSync conf then auto_copy (watch_delay conf) 0 items else [])"

text \<open>
  \<^verbatim>\<open>cmdDev\<close>: the links, the schema watches, the copy watches, the restart watch and
  the first start of the process. The result is the calls made and the error that ended
  the function, if any.
\<close>

definition cmdDev ::
  "(sync_item \<Rightarrow> bool) \<Rightarrow> (proto_item \<Rightarrow> bool) \<Rightarrow> TsrpcConfig \<Rightarrow> setup_call list \<times> setup_error option" where
  "cmdDev link_ok load_ok conf =
     (case auto_link link_ok (linkConfs conf) of
        (links, Some err) \<Rightarrow> (links, Some err)
      | (links, None) \<Rightarrow>
          (case proto_watches load_ok conf of
             (protos, Some err) \<Rightarrow> (links @ protos, Some err)
           | (protos, None) \<Rightarrow>
               (links @ protos @ copy_watches conf @
                [DelayWatch DEV_SERVER (watchFiles conf) (watch_delay conf), StartDevServer],
                None)))"

fun is_EnsureSymlink :: "setup_call \<Rightarrow> bool" where
  "is_EnsureSymlink (EnsureSymlink f t) = True"
| "is_EnsureSymlink c = False"

text \<open>The calls that create a watch or start the supervised process.\<close>

fun starts_watching :: "setup_call \<Rightarrow> bool" where
  "starts_watching (DelayWatch i m d) = True"
| "starts_watching StartDevServer = True"
| "starts_watching c = False"

definition example_link :: sync_item where
  "example_link = \<lparr>sync_type = symlink, sync_from = ''src/shared'', sync_to = ''app/shared''\<rparr>"

definition example_config :: TsrpcConfig where
  "example_config =
     \<lparr>proto = Some [example_proto], sync = Some [example_link, example_sync], dev = None,
      verbose = False\<rparr>"

section \<open>The restart watch and the supervised process\<close>

text \<open>
  The last part of \<^verbatim>\<open>cmdDev\<close> (source lines 110 to 147): the variables \<open>devServer\<close> and
  \<open>devServerRestartTimes\<close>, the function \<^verbatim>\<open>startDevServer\<close>, and the watch whose
  \<^verbatim>\<open>onWillTrigger\<close> kills the running process and whose \<^verbatim>\<open>onTrigger\<close> calls
  \<^verbatim>\<open>startDevServer\<close>. The state adds to the engine of that watch what the runtime holds:
  the invocations of \<^verbatim>\<open>startDevServer\<close> waiting in their 200 ms timeout (each with the
  value of \<open>devServerRestartTimes\<close> it captured and the time its wait ends), the process
  whose exit the \<^verbatim>\<open>onWillTrigger\<close> callback is waiting for, and the child processes that
  have been started and have not exited.
\<close>

datatype proc_call = Exec nat | Kill nat | Exit nat

record dev_server =
  engine :: watch
  devServer :: "nat option"
  devServerRestartTimes :: nat
  starting :: "(nat \<times> nat) list"
  killing :: "nat option"
  alive :: "nat list"
  next_pid :: nat
  proc_calls :: "proc_call list"

definition dev_options :: "nat \<Rightarrow> delayWatch_options" where
  "dev_options dl = \<lparr>onWillTrigger = True, onTrigger = True, delay = dl\<rparr>"

text \<open>
  \<^verbatim>\<open>startDevServer\<close> up to its \<^verbatim>\<open>await\<close> (source lines 114 to 117): it captures the
  counter and starts the 200 ms wait.
\<close>

definition startDevServer :: "dev_server \<Rightarrow> dev_server" where
  "startDevServer s =
     s\<lparr>starting := starting s @ [(devServerRestartTimes s, now (engine s) + 200)]\<rparr>"

text \<open>
  The rest of \<^verbatim>\<open>startDevServer\<close> (source lines 118 to 125), for the first invocation
  whose wait is over: it returns when the counter has changed, and otherwise starts the
  process and stores it in \<open>devServer\<close>.
\<close>

definition startDevServer_resume :: "dev_server \<Rightarrow> dev_server option" where
  "startDevServer_resume s =
     (case filter (\<lambda>a. snd a \<le> now (engine s)) (starting s) of
        [] \<Rightarrow> None
      | a # _ \<Rightarrow>
          let s1 = s\<lparr>starting := remove1 a (starting s)\<rparr> in
          if devServerRestartTimes s1 \<noteq> fst a then Some s1
          else Some (s1\<lparr>devServer := Some (next_pid s1),
                        alive := alive s1 @ [next_pid s1],
                        next_pid := Suc (next_pid s1),
                        proc_calls := proc_calls s1 @ [Exec (next_pid s1)]\<rparr>))"

text \<open>
  The promise awaited by the engine's handler is fulfilled: the handler resumes and arms
  the timer.
\<close>

definition handler_resumes :: "nat \<Rightarrow> dev_server \<Rightarrow> dev_server option" where
  "handler_resumes dl s =
     (case onWillTrigger_settled (dev_options dl) Returns (engine s) of
        None \<Rightarrow> None
      | Some w \<Rightarrow> Some (s\<lparr>engine := w\<rparr>))"

text \<open>
  The watcher delivers an event. On the leading edge the engine calls the
  \<^verbatim>\<open>onWillTrigger\<close> of this watch (source lines 129 to 140): the counter is incremented;
  with a process in \<open>devServer\<close> the callback registers for its exit, kills it and waits;
  without one the callback returns, and the handler resumes before anything else runs.
\<close>

definition dev_event :: "nat \<Rightarrow> ChangeEvent \<Rightarrow> dev_server \<Rightarrow> dev_server option" where
  "dev_event dl e s =
     (if leading_edge (engine s)
      then
        (let s1 = s\<lparr>engine := delayWatch_onWillTrigger (dev_options dl) e (engine s),
                     devServerRestartTimes := Suc (devServerRestartTimes s)\<rparr>
         in case devServer s1 of
              Some p \<Rightarrow> Some (s1\<lparr>killing := Some p, proc_calls := proc_calls s1 @ [Kill p]\<rparr>)
            | None \<Rightarrow> handler_resumes dl s1)
      else Some (s\<lparr>engine := delayWatch_onWillTrigger (dev_options dl) e (engine s)\<rparr>))"

text \<open>
  A child process exits. When it is the one the callback waits for, the callback clears
  \<open>devServer\<close> and returns, and the handler resumes (source lines 135 to 138).
\<close>

definition proc_exit :: "nat \<Rightarrow> nat \<Rightarrow> dev_server \<Rightarrow> dev_server option" where
  "proc_exit dl p s =
     (if p \<notin> set (alive s) then None
      else
        (let s1 = s\<lparr>alive := removeAll p (alive s), proc_calls := proc_calls s @ [Exit p]\<rparr>
         in if killing s1 = Some p
            then handler_resumes dl (s1\<lparr>killing := None, devServer := None\<rparr>)
            else Some s1))"

text \<open>The timer of the watch runs: \<^verbatim>\<open>onTrigger\<close> calls \<^verbatim>\<open>startDevServer\<close>.\<close>

definition dev_fire :: "nat \<Rightarrow> dev_server \<Rightarrow> dev_server option" where
  "dev_fire dl s =
     (case fire (dev_options dl) Returns (engine s) of
        None \<Rightarrow> None
      | Some w \<Rightarrow> Some (startDevServer (s\<lparr>engine := w\<rparr>)))"

datatype dev_action = DAdvance nat | DEvent ChangeEvent | DFire | DSettled | DExit nat

fun dev_step :: "nat \<Rightarrow> dev_action \<Rightarrow> dev_server \<Rightarrow> dev_server option" where
  "dev_step dl (DAdvance d) s = Some (s\<lparr>engine := (engine s)\<lparr>now := now (engine s) + d\<rparr>\<rparr>)"
| "dev_step dl (DEvent e) s = dev_event dl e s"
| "dev_step dl DFire s = dev_fire dl s"
| "dev_step dl DSettled s = startDevServer_resume s"
| "dev_step dl (DExit p) s = proc_exit dl p s"


text \<open>
  The state at the end of \<^verbatim>\<open>cmdDev\<close>: no process, the counter at 0, and the first call
  of \<^verbatim>\<open>startDevServer\<close> made (source line 147).
\<close>

definition init_dev :: dev_server where
  "init_dev =
     startDevServer
       \<lparr>engine = init_watch, devServer = None, devServerRestartTimes = 0, starting = [],
        killing = None, alive = [], next_pid = 0, proc_calls = []\<rparr>"

inductive dev_reachable :: "nat \<Rightarrow> dev_server \<Rightarrow> bool" for dl where
  dev_reachable_init: "dev_reachable dl init_dev"
| dev_reachable_step: "dev_reachable dl s \<Longrightarrow> dev_step dl a s = Some s' \<Longrightarrow> dev_reachable dl s'"

text \<open>
  The invariant of the supervisor. A live process is the one in \<open>devServer\<close>. The
  callback waits for an exit only while the handler is suspended, and then for the
  process in \<open>devServer\<close>. The pending invocations of \<^verbatim>\<open>startDevServer\<close> captured
  different values of the counter, none above its present value; while a window of the
  watch is open all of them are stale; and while the timer is armed, or an invocation
  holds the present value, \<open>devServer\<close> is empty.
\<close>

definition dev_inv :: "nat \<Rightarrow> dev_server \<Rightarrow> bool" where
  "dev_inv dl s =
     (watch_inv (dev_options dl) (engine s) \<and>
      (case devServer s of None \<Rightarrow> alive s = [] | Some p \<Rightarrow> alive s = [] \<or> alive s = [p]) \<and>
      (case killing s of
         None \<Rightarrow> \<not> isProcessing (engine s)
       | Some p \<Rightarrow> devServer s = Some p \<and> awaiting (engine s) \<noteq> []) \<and>
      sorted_wrt (<) (map fst (starting s)) \<and>
      list_all (\<lambda>a. fst a \<le> devServerRestartTimes s) (starting s) \<and>
      (window_open (engine s) \<longrightarrow> list_all (\<lambda>a. fst a < devServerRestartTimes s) (starting s)) \<and>
      (timer (engine s) \<noteq> None \<longrightarrow> devServer s = None) \<and>
      (list_ex (\<lambda>a. fst a = devServerRestartTimes s) (starting s) \<longrightarrow> devServer s = None))"

fun is_Exec :: "proc_call \<Rightarrow> bool" where
  "is_Exec (Exec p) = True"
| "is_Exec c = False"


definition example_running :: dev_server where
  "example_running =
     \<lparr>engine =
        \<lparr>timer = None, isProcessing = False, now = 200, timeouts = [], next_handle = 0,
         awaiting = [], calls = []\<rparr>,
      devServer = Some 0, devServerRestartTimes = 0, starting = [],
      killing = None, alive = [0], next_pid = 1, proc_calls = [Exec 0]\<rparr>"

definition example_killing :: dev_server where
  "example_killing =
     \<lparr>engine =
        \<lparr>timer = None, isProcessing = True, now = 200, timeouts = [], next_handle = 0,
         awaiting = [event_a], calls = [(200, WillTrigger event_a)]\<rparr>,
      devServer = Some 0, devServerRestartTimes = 1, starting = [],
      killing = Some 0, alive = [0], next_pid = 1, proc_calls = [Exec 0, Kill 0]\<rparr>"

text \<open>The state 200 ms after the start of the session, before the first process.\<close>

definition example_ready :: dev_server where
  "example_ready =
     \<lparr>engine =
        \<lparr>timer = None, isProcessing = False, now = 200, timeouts = [], next_handle = 0,
         awaiting = [], calls = []\<rparr>,
      devServer = None, devServerRestartTimes = 0, starting = [(0, 200)],
      killing = None, alive = [], next_pid = 0, proc_calls = []\<rparr>"

section \<open>Properties of the watch engine\<close>

subsection \<open>The invariant holds in every reachable state\<close>

lemma watch_inv_init: "watch_inv opts init_watch"
  by (simp add: watch_inv_def init_watch_def)

lemma filter_single_handle:
  "map fst ts = [h] \<Longrightarrow> filter (\<lambda>t. fst t \<noteq> h) ts = []"
  by (cases ts) auto

lemma watch_inv_event: "watch_inv opts w \<Longrightarrow> watch_inv opts (delayWatch_onWillTrigger opts e w)"
  by (cases "timer w")
     (simp_all add: watch_inv_def delayWatch_onWillTrigger_def set_new_timer_def setTimeout_def
        clearTimeout_def filter_single_handle split: if_splits)

lemma watch_inv_settled:
  "watch_inv opts w \<Longrightarrow> onWillTrigger_settled opts r w = Some w' \<Longrightarrow> watch_inv opts w'"
  by (cases "awaiting w"; cases r)
     (auto simp: watch_inv_def onWillTrigger_settled_def set_new_timer_def setTimeout_def
        split: if_splits)

lemma watch_inv_fire: "watch_inv opts w \<Longrightarrow> fire opts r w = Some w' \<Longrightarrow> watch_inv opts w'"
  by (cases "timer w")
     (auto simp: watch_inv_def fire_def timer_callback_def clearTimeout_def filter_single_handle
        split: if_splits list.splits)

lemma watch_inv_advance: "watch_inv opts w \<Longrightarrow> watch_inv opts (w\<lparr>now := now w + d\<rparr>)"
  by (cases "timeouts w") (auto simp: watch_inv_def list_all_iff)

lemma watch_inv_step: "watch_inv opts w \<Longrightarrow> step opts a w = Some w' \<Longrightarrow> watch_inv opts w'"
  by (cases a) (auto intro: watch_inv_event watch_inv_settled watch_inv_fire watch_inv_advance)

lemma reachable_inv: "reachable opts w \<Longrightarrow> watch_inv opts w"
  by (induction rule: reachable.induct) (auto simp: watch_inv_init intro: watch_inv_step)

lemma run_append:
  "run opts w (as @ bs) = (case run opts w as of None \<Rightarrow> None | Some w' \<Rightarrow> run opts w' bs)"
  by (induction as arbitrary: w) (auto split: option.splits)

lemma reachable_run: "reachable opts w \<Longrightarrow> run opts w as = Some w' \<Longrightarrow> reachable opts w'"
  by (induction as arbitrary: w) (auto split: option.splits intro: reachable_step)

lemma discarded_while_processing: "isProcessing w \<Longrightarrow> delayWatch_onWillTrigger opts e w = w"
  by (simp add: delayWatch_onWillTrigger_def)

lemma awaiting_isProcessing: "watch_inv opts w \<Longrightarrow> awaiting w \<noteq> [] \<Longrightarrow> isProcessing w"
  by (auto simp: watch_inv_def split: if_splits)

lemma reachable_first_event:
  "reachable example_options (delayWatch_onWillTrigger example_options event_a init_watch)"
  by (rule reachable_step [OF reachable_init, of _ "Ev event_a"]) simp

subsection \<open>Events that arrive during the await\<close>

text \<open>
  Claim C10. An event that arrives while the handler is suspended at the await of the
  user's \<^verbatim>\<open>onWillTrigger\<close> for an earlier event is discarded: the handler returns the
  state as it found it (no callback is called, the timeouts and the variable \<open>timer\<close> are
  untouched), and every schedule continues exactly as if the event had never been
  delivered, so the event can never be the one a later \<^verbatim>\<open>onTrigger\<close> receives.
\<close>

theorem event_during_await_discarded:
  assumes "reachable opts w" and "awaiting w \<noteq> []"
  shows "delayWatch_onWillTrigger opts e w = w \<and> run opts w (Ev e # as) = run opts w as"
  using awaiting_isProcessing [OF reachable_inv [OF assms(1)] assms(2)]
  by (simp add: discarded_while_processing)

theorem event_during_await_discarded_witness:
  "reachable example_options (delayWatch_onWillTrigger example_options event_a init_watch) \<and>
   awaiting (delayWatch_onWillTrigger example_options event_a init_watch) \<noteq> [] \<and>
   delayWatch_onWillTrigger example_options event_b
     (delayWatch_onWillTrigger example_options event_a init_watch) =
   delayWatch_onWillTrigger example_options event_a init_watch \<and>
   run example_options (delayWatch_onWillTrigger example_options event_a init_watch)
     [Ev event_b, Settle Returns, Advance 1000, Fire Returns] =
   run example_options (delayWatch_onWillTrigger example_options event_a init_watch)
     [Settle Returns, Advance 1000, Fire Returns]"
proof -
  let ?w = "delayWatch_onWillTrigger example_options event_a init_watch"
  have a: "awaiting ?w \<noteq> []"
    by (simp add: delayWatch_onWillTrigger_def init_watch_def)
  from event_during_await_discarded
         [OF reachable_first_event a, of event_b "[Settle Returns, Advance 1000, Fire Returns]"]
       reachable_first_event a
  show ?thesis by simp
qed

subsection \<open>One timer, one leading edge per window\<close>

lemma inv_timeouts_le1: "watch_inv opts w \<Longrightarrow> length (timeouts w) \<le> 1"
  by (cases "timer w") (auto simp: watch_inv_def dest: arg_cong [where f = length])

lemma rearm:
  assumes "watch_inv opts w" and "timer w \<noteq> None"
  shows "calls (delayWatch_onWillTrigger opts e w) = calls w \<and>
         timeouts (delayWatch_onWillTrigger opts e w) = [(next_handle w, now w + delay opts, e)] \<and>
         timer (delayWatch_onWillTrigger opts e w) = Some (next_handle w)"
  using assms
  by (auto simp: watch_inv_def delayWatch_onWillTrigger_def set_new_timer_def setTimeout_def
      clearTimeout_def filter_single_handle split: if_splits)

lemma step_window_open:
  assumes "watch_inv opts w" and "window_open w" and "step opts a w = Some w'" and "\<not> is_Fire a"
  shows "window_open w' \<and> will_count w' = will_count w"
proof (cases a)
  case (Advance d)
  with assms show ?thesis by (auto simp: window_open_def will_count_def)
next
  case (Ev e)
  with assms show ?thesis
    by (cases "timer w")
       (auto simp: window_open_def will_count_def delayWatch_onWillTrigger_def set_new_timer_def
          setTimeout_def clearTimeout_def watch_inv_def split: if_splits)
next
  case (Settle r)
  with assms show ?thesis
    by (cases "awaiting w"; cases r)
       (auto simp: window_open_def will_count_def onWillTrigger_settled_def set_new_timer_def
          setTimeout_def watch_inv_def split: if_splits)
next
  case (Fire r)
  with assms show ?thesis by simp
qed

lemma step_window_closed:
  assumes "watch_inv opts w" and "\<not> window_open w" and "step opts a w = Some w'" and "\<not> is_Fire a"
  shows "will_count w' \<le> will_count w + 1 \<and> (window_open w' \<or> will_count w' = will_count w)"
proof (cases a)
  case (Advance d)
  with assms show ?thesis by (auto simp: window_open_def will_count_def)
next
  case (Ev e)
  with assms show ?thesis
    by (auto simp: window_open_def will_count_def delayWatch_onWillTrigger_def)
next
  case (Settle r)
  with assms show ?thesis
    by (auto simp: window_open_def onWillTrigger_settled_def watch_inv_def split: if_splits)
next
  case (Fire r)
  with assms show ?thesis by simp
qed

lemma run_without_fire:
  "watch_inv opts w \<Longrightarrow> list_all (\<lambda>a. \<not> is_Fire a) as \<Longrightarrow> run opts w as = Some w' \<Longrightarrow>
   will_count w' \<le> will_count w + 1 \<and> (window_open w \<longrightarrow> will_count w' = will_count w)"
proof (induction as arbitrary: w)
  case Nil
  then show ?case by simp
next
  case (Cons a as)
  from Cons.prems obtain w1 where s: "step opts a w = Some w1" and r: "run opts w1 as = Some w'"
    by (auto split: option.splits)
  from Cons.prems have nf: "\<not> is_Fire a" and rest: "list_all (\<lambda>a. \<not> is_Fire a) as" by simp_all
  have inv1: "watch_inv opts w1" using watch_inv_step [OF Cons.prems(1) s] .
  note ih = Cons.IH [OF inv1 rest r]
  show ?case
  proof (cases "window_open w")
    case True
    from step_window_open [OF Cons.prems(1) True s nf] ih show ?thesis by simp
  next
    case False
    from step_window_closed [OF Cons.prems(1) False s nf] ih False show ?thesis by auto
  qed
qed

text \<open>
  Claim C3. In every state a watch can reach, the runtime holds at most one pending
  timeout of the watch. An event that arrives while the timer is armed calls no callback
  and leaves exactly one timeout, the new one, due \<open>delay\<close> ms from now and carrying the
  new event (the old one is cancelled). A window is closed only by the timer callback:
  along any schedule in which no timeout runs, however the events and the settling of
  the callback interleave, \<^verbatim>\<open>onWillTrigger\<close> is called at most once, and not at all when
  the window is already open.
\<close>

theorem one_timer_one_leading_edge:
  assumes "reachable opts w"
  shows "length (timeouts w) \<le> 1 \<and>
     (\<forall>e. timer w \<noteq> None \<longrightarrow>
        calls (delayWatch_onWillTrigger opts e w) = calls w \<and>
        timeouts (delayWatch_onWillTrigger opts e w) = [(next_handle w, now w + delay opts, e)] \<and>
        timer (delayWatch_onWillTrigger opts e w) = Some (next_handle w)) \<and>
     (\<forall>as w'. list_all (\<lambda>a. \<not> is_Fire a) as \<longrightarrow> run opts w as = Some w' \<longrightarrow>
        will_count w' \<le> will_count w + 1 \<and> (window_open w \<longrightarrow> will_count w' = will_count w))"
proof -
  note inv = reachable_inv [OF assms]
  show ?thesis
    using inv_timeouts_le1 [OF inv] rearm [OF inv] run_without_fire [OF inv] by blast
qed


lemma run_example_armed:
  "run example_options init_watch [Ev event_a, Settle Returns] = Some example_armed"
  by (simp add: example_armed_def example_options_def init_watch_def delayWatch_onWillTrigger_def
      onWillTrigger_settled_def set_new_timer_def setTimeout_def)

lemma reachable_example_armed: "reachable example_options example_armed"
  by (rule reachable_run [OF reachable_init run_example_armed])

theorem one_timer_one_leading_edge_witness:
  "reachable example_options example_armed \<and>
   timer example_armed \<noteq> None \<and>
   window_open example_armed \<and>
   length (timeouts example_armed) \<le> 1 \<and>
   calls (delayWatch_onWillTrigger example_options event_b example_armed) = calls example_armed \<and>
   timeouts (delayWatch_onWillTrigger example_options event_b example_armed) =
     [(1, 1000, event_b)] \<and>
   list_all (\<lambda>a. \<not> is_Fire a) [Advance 300, Ev event_b, Ev event_a] \<and>
   (\<exists>w'. run example_options example_armed [Advance 300, Ev event_b, Ev event_a] = Some w' \<and>
      will_count w' = will_count example_armed)"
proof -
  have t: "timer example_armed \<noteq> None" and wo: "window_open example_armed"
    by (simp_all add: example_armed_def window_open_def)
  have n: "list_all (\<lambda>a. \<not> is_Fire a) [Advance 300, Ev event_b, Ev event_a]" by simp
  obtain w' where r: "run example_options example_armed [Advance 300, Ev event_b, Ev event_a] = Some w'"
    by simp
  note main = one_timer_one_leading_edge [OF reachable_example_armed]
  from main have 1: "length (timeouts example_armed) \<le> 1" by blast
  from main t have 2: "calls (delayWatch_onWillTrigger example_options event_b example_armed) = calls example_armed"
    and 3: "timeouts (delayWatch_onWillTrigger example_options event_b example_armed) =
       [(next_handle example_armed, now example_armed + delay example_options, event_b)]"
    by blast+
  from main n r wo have 4: "will_count w' = will_count example_armed" by blast
  have 5: "next_handle example_armed = 1" "now example_armed + delay example_options = 1000"
    by (simp_all add: example_armed_def example_options_def)
  from reachable_example_armed t wo 1 2 3 n r 4 5 show ?thesis by simp
qed

subsection \<open>Quiet intervals\<close>


lemma quiet_not_due:
  "timeouts w = [(h, due, e0)] \<Longrightarrow> now w + d < due \<Longrightarrow> quiet opts d w = Some (w\<lparr>now := now w + d\<rparr>)"
  by (simp add: quiet_def)

lemma quiet_fires:
  assumes "timeouts w = [(h, due, e0)]" and "due \<le> now w + d" and "onTrigger opts"
  shows "quiet opts d w =
    Some (w\<lparr>now := now w + d, timeouts := [], timer := None,
            calls := calls w @ [(max (now w) due, Trigger e0)]\<rparr>)"
  using assms
  by (auto simp: quiet_def fire_def timer_callback_def clearTimeout_def max_def)

subsection \<open>Bursts\<close>

lemma closed_window_state:
  assumes "watch_inv opts w" and "\<not> window_open w"
  shows "timer w = None \<and> \<not> isProcessing w \<and> timeouts w = [] \<and> awaiting w = []"
  using assms by (auto simp: watch_inv_def window_open_def)


text \<open>The later events of a burst only move the timer.\<close>

lemma burst_rearms:
  assumes "within_delay (delay opts) 0 evs"
    and "\<not> isProcessing w" and "timer w = Some h" and "timeouts w = [(h, now w + delay opts, e0)]"
  shows "\<exists>w' h'. timed_run opts (deliveries evs) w = Some w' \<and>
           calls w' = calls w \<and> awaiting w' = awaiting w \<and> \<not> isProcessing w' \<and>
           timer w' = Some h' \<and>
           now w' = now w + sum_list (map fst evs) \<and>
           timeouts w' = [(h', now w' + delay opts, last (e0 # map snd evs))]"
  using assms
proof (induction evs arbitrary: w h e0)
  case Nil
  then show ?case by (simp add: deliveries_def)
next
  case (Cons ge evs)
  obtain g e where ge: "ge = (g, e)" by (cases ge)
  from Cons.prems(1) ge have g: "g < delay opts" and rest: "within_delay (delay opts) 0 evs"
    by simp_all
  let ?w1 = "w\<lparr>now := now w + g\<rparr>"
  have q: "quiet opts g w = Some ?w1"
    using quiet_not_due [OF Cons.prems(4)] g by simp
  let ?w2 = "delayWatch_onWillTrigger opts e ?w1"
  have w2: "\<not> isProcessing ?w2" "timer ?w2 = Some (next_handle w)"
    "timeouts ?w2 = [(next_handle w, now ?w2 + delay opts, e)]"
    "calls ?w2 = calls w" "awaiting ?w2 = awaiting w" "now ?w2 = now w + g"
    using Cons.prems(2,3,4)
    by (simp_all add: delayWatch_onWillTrigger_def set_new_timer_def setTimeout_def clearTimeout_def)
  from Cons.IH [OF rest w2(1) w2(2) w2(3)]
  obtain w' h' where ih: "timed_run opts (deliveries evs) ?w2 = Some w'"
    "calls w' = calls ?w2" "awaiting w' = awaiting ?w2" "\<not> isProcessing w'" "timer w' = Some h'"
    "now w' = now ?w2 + sum_list (map fst evs)"
    "timeouts w' = [(h', now w' + delay opts, last (e # map snd evs))]"
    by blast
  have run: "timed_run opts (deliveries (ge # evs)) w = Some w'"
    using q ih(1) by (simp add: deliveries_def ge)
  show ?case
    using run ih w2 by (simp add: ge add.assoc)
qed

lemma within_delay_mono: "within_delay D s evs \<Longrightarrow> within_delay D 0 evs"
  by (cases evs) auto


lemma first_event_opens:
  assumes "watch_inv opts w" and "\<not> window_open w" and "onWillTrigger opts"
  shows "timed_run opts [(0, Ev e), (s, Settle Returns)] w =
     Some (w\<lparr>now := now w + s, timer := Some (next_handle w),
             timeouts := [(next_handle w, now w + s + delay opts, e)],
             next_handle := Suc (next_handle w),
             calls := calls w @ [(now w, WillTrigger e)]\<rparr>)"
  using closed_window_state [OF assms(1,2)] assms(3)
  by (simp add: quiet_def delayWatch_onWillTrigger_def onWillTrigger_settled_def
      set_new_timer_def setTimeout_def)

lemma timed_run_append:
  "timed_run opts (as @ bs) w =
     (case timed_run opts as w of None \<Rightarrow> None | Some w' \<Rightarrow> timed_run opts bs w')"
  by (induction as arbitrary: w) (auto split: option.splits)

text \<open>
  Claim C1, as amended. Take a watch with both callbacks whose window is closed, a first
  event \<open>e\<close>, the handler resuming \<open>s\<close> ms later from its await of the \<^verbatim>\<open>onWillTrigger\<close>
  call made for \<open>e\<close>, the call having returned normally (the await takes a turn of the
  event loop even when the callback returns at once), and further events \<open>evs\<close> that
  are delivered after the handler has resumed, each less than \<open>delay\<close> ms after the
  event before it. With the timeouts running when they fall due, the calls made are
  exactly two: \<^verbatim>\<open>onWillTrigger\<close> with the first event, at the time of the first event, and
  \<^verbatim>\<open>onTrigger\<close> with the last event of the sequence, \<open>delay\<close> ms after the last event
  (after the handler has resumed when there is one event only). The window is closed
  again afterwards.
\<close>

theorem burst_triggers_once:
  assumes "reachable opts w" and "\<not> window_open w"
    and "onWillTrigger opts" and "onTrigger opts"
    and "within_delay (delay opts) s evs"
  shows "\<exists>w1 w2.
     timed_run opts ((0, Ev e) # (s, Settle Returns) # deliveries evs) w = Some w1 \<and>
     quiet opts (delay opts) w1 = Some w2 \<and>
     calls w2 = calls w @
       [(now w, WillTrigger e),
        (now w + s + sum_list (map fst evs) + delay opts, Trigger (last (e # map snd evs)))] \<and>
     \<not> window_open w2"
proof -
  note inv = reachable_inv [OF assms(1)]
  let ?w0 = "w\<lparr>now := now w + s, timer := Some (next_handle w),
             timeouts := [(next_handle w, now w + s + delay opts, e)],
             next_handle := Suc (next_handle w),
             calls := calls w @ [(now w, WillTrigger e)]\<rparr>"
  have first: "timed_run opts [(0, Ev e), (s, Settle Returns)] w = Some ?w0"
    by (rule first_event_opens [OF inv assms(2,3)])
  have np: "\<not> isProcessing ?w0" and aw: "awaiting ?w0 = []"
    using closed_window_state [OF inv assms(2)] by simp_all
  have "\<exists>w' h'. timed_run opts (deliveries evs) ?w0 = Some w' \<and>
           calls w' = calls ?w0 \<and> awaiting w' = awaiting ?w0 \<and> \<not> isProcessing w' \<and>
           timer w' = Some h' \<and>
           now w' = now ?w0 + sum_list (map fst evs) \<and>
           timeouts w' = [(h', now w' + delay opts, last (e # map snd evs))]"
    by (rule burst_rearms [OF within_delay_mono [OF assms(5)] np]) simp_all
  then obtain w1 h1 where w1: "timed_run opts (deliveries evs) ?w0 = Some w1"
    "calls w1 = calls ?w0" "awaiting w1 = awaiting ?w0" "\<not> isProcessing w1"
    "timer w1 = Some h1" "now w1 = now ?w0 + sum_list (map fst evs)"
    "timeouts w1 = [(h1, now w1 + delay opts, last (e # map snd evs))]"
    by blast
  have run: "timed_run opts ((0, Ev e) # (s, Settle Returns) # deliveries evs) w = Some w1"
    using timed_run_append [of opts "[(0, Ev e), (s, Settle Returns)]" "deliveries evs" w]
      first w1(1) by simp
  let ?w2 = "w1\<lparr>now := now w1 + delay opts, timeouts := [], timer := None,
            calls := calls w1 @ [(max (now w1) (now w1 + delay opts), Trigger (last (e # map snd evs)))]\<rparr>"
  have q: "quiet opts (delay opts) w1 = Some ?w2"
    by (rule quiet_fires [OF w1(7) _ assms(4)]) simp
  have c: "calls ?w2 = calls w @
       [(now w, WillTrigger e),
        (now w + s + sum_list (map fst evs) + delay opts, Trigger (last (e # map snd evs)))]"
    using w1(2,6) by simp
  have cl: "\<not> window_open ?w2"
    using w1(4) by (simp add: window_open_def)
  from run q c cl show ?thesis by blast
qed


lemma closed_init: "\<not> window_open init_watch"
  by (simp add: window_open_def init_watch_def)

theorem burst_triggers_once_witness:
  "reachable example_options init_watch \<and> \<not> window_open init_watch \<and>
   onWillTrigger example_options \<and> onTrigger example_options \<and>
   within_delay (delay example_options) 0 [(300, event_b)] \<and>
   (\<exists>w1 w2.
      timed_run example_options [(0, Ev event_a), (0, Settle Returns), (300, Ev event_b)] init_watch
        = Some w1 \<and>
      quiet example_options 1000 w1 = Some w2 \<and>
      calls w2 = [(0, WillTrigger event_a), (1300, Trigger event_b)])"
proof -
  have h: "onWillTrigger example_options" "onTrigger example_options"
    "within_delay (delay example_options) 0 [(300, event_b)]"
    by (simp_all add: example_options_def)
  have d: "delay example_options = 1000" "now init_watch = 0" "calls init_watch = []"
    by (simp_all add: example_options_def init_watch_def)
  from burst_triggers_once [OF reachable_init closed_init h, of event_a]
  have "\<exists>w1 w2.
      timed_run example_options [(0, Ev event_a), (0, Settle Returns), (300, Ev event_b)] init_watch
        = Some w1 \<and>
      quiet example_options 1000 w1 = Some w2 \<and>
      calls w2 = [(0, WillTrigger event_a), (1300, Trigger event_b)]"
    by (auto simp: d deliveries_def)
  with reachable_init closed_init h show ?thesis by simp
qed

text \<open>
  Claim C1 as stated fails when an event of the burst is delivered while the handler is
  still suspended at the await of \<^verbatim>\<open>onWillTrigger\<close>. Events at 0 ms (\<^verbatim>\<open>src/a.ts\<close>) and 10 ms
  (\<^verbatim>\<open>src/b.ts\<close>), with a delay of 1000 ms and a handler that resumes at 50 ms (the restart
  watch awaits the exit of the child process there): the second event is discarded, the
  timer is armed at 50 ms with the first event, and \<^verbatim>\<open>onTrigger\<close> runs at 1050 ms with
  \<^verbatim>\<open>src/a.ts\<close>, which is not the last event of the sequence.
\<close>

theorem last_event_lost_during_await:
  "within_delay (delay example_options) 0 [(10, event_b)] \<and>
   event_b \<noteq> event_a \<and>
   map_option calls
     (timed_run example_options
        [(0, Ev event_a), (10, Ev event_b), (40, Settle Returns), (1000, Advance 0)] init_watch) =
   Some [(0, WillTrigger event_a), (1050, Trigger event_a)]"
  by (simp add: example_options_def event_a_def event_b_def init_watch_def quiet_def
      delayWatch_onWillTrigger_def onWillTrigger_settled_def set_new_timer_def setTimeout_def
      fire_def timer_callback_def clearTimeout_def)


text \<open>
  When the handler arms the timer, the timeout is due \<open>delay\<close> ms later: on the resumption
  after the await, and on every later event of the window.
\<close>

lemma armed_for_delay:
  "timeouts (set_new_timer opts e w) = timeouts w @ [(next_handle w, now w + delay opts, e)]"
  by (simp add: set_new_timer_def setTimeout_def)



subsection \<open>Callbacks that throw\<close>

text \<open>
  Once \<^verbatim>\<open>onWillTrigger\<close> has thrown, \<open>isProcessing\<close> is never reset: every later event is
  discarded at the first line of the handler and no callback is called again.
\<close>

lemma stuck_step:
  assumes "isProcessing w" and "awaiting w = []" and "timeouts w = []"
    and "step opts a w = Some w'"
  shows "isProcessing w' \<and> awaiting w' = [] \<and> timeouts w' = [] \<and> calls w' = calls w"
  using assms
  by (cases a) (auto simp: delayWatch_onWillTrigger_def onWillTrigger_settled_def fire_def)

lemma stuck_forever:
  "isProcessing w \<Longrightarrow> awaiting w = [] \<Longrightarrow> timeouts w = [] \<Longrightarrow> run opts w as = Some w' \<Longrightarrow>
   calls w' = calls w"
proof (induction as arbitrary: w)
  case Nil
  then show ?case by simp
next
  case (Cons a as)
  from Cons.prems(4) obtain w1 where s: "step opts a w = Some w1" and r: "run opts w1 as = Some w'"
    by (auto split: option.splits)
  from stuck_step [OF Cons.prems(1-3) s] Cons.IH [OF _ _ _ r] show ?case by simp
qed

text \<open>
  Claim C4 (the code at the failing input). \<^verbatim>\<open>onWillTrigger\<close> is called for an event at
  0 ms and its promise settles at once; a second event arrives at 5000 ms and a further
  1000 ms pass. When the callback throws, the handler's promise is rejected, the flag
  \<open>isProcessing\<close> stays set, no timer is armed, and the second event causes no call at
  all. When the callback returns, \<^verbatim>\<open>onTrigger\<close> runs at 1000 ms and the second event
  opens a new window with its own \<^verbatim>\<open>onWillTrigger\<close> call.
\<close>

theorem watch_dead_after_onWillTrigger_throws:
  "map_option (\<lambda>w. (isProcessing w, timer w, timeouts w, calls w))
     (timed_run example_options
        [(0, Ev event_a), (0, Settle Throws), (5000, Ev event_b), (1000, Advance 0)] init_watch) =
   Some (True, None, [], [(0, WillTrigger event_a), (0, HandlerRejected event_a)]) \<and>
   map_option (\<lambda>w. (isProcessing w, timer w, timeouts w, calls w))
     (timed_run example_options
        [(0, Ev event_a), (0, Settle Returns), (5000, Ev event_b), (1000, Advance 0)] init_watch) =
   Some (True, None, [],
         [(0, WillTrigger event_a), (1000, Trigger event_a), (5000, WillTrigger event_b)])"
  by (simp add: example_options_def event_a_def event_b_def init_watch_def quiet_def
      delayWatch_onWillTrigger_def onWillTrigger_settled_def set_new_timer_def setTimeout_def
      fire_def timer_callback_def clearTimeout_def)
section \<open>Properties of the session\<close>

subsection \<open>The trigger of a copy watch\<close>

lemma unlink_names:
  "startsWith (name_of k) ''unlink'' = (k = unlink \<or> k = unlinkDir)"
  by (cases k) (simp_all add: startsWith_def)

lemma dir_names:
  "endsWith (name_of k) ''Dir'' = (k = addDir \<or> k = unlinkDir)"
  by (cases k) (simp_all add: endsWith_def suffix_to_prefix)

lemma autosync_step_inited:
  "isInited st \<Longrightarrow> autosync_step resolve relative confItem a st = Some st' \<Longrightarrow>
   isInited st' \<and> filter is_bulk (fs_calls st') = filter is_bulk (fs_calls st)"
  by (cases a)
     (auto simp: autosync_onTrigger_def syncByConfigItem_settled_def incremental_def Let_def
        split: if_splits outcome.splits)

lemma autosync_run_inited:
  "isInited st \<Longrightarrow> autosync_run resolve relative confItem st as = Some st' \<Longrightarrow>
   isInited st' \<and> filter is_bulk (fs_calls st') = filter is_bulk (fs_calls st)"
proof (induction as arbitrary: st)
  case Nil
  then show ?case by simp
next
  case (Cons a as)
  from Cons.prems(2) obtain st1 where
    s: "autosync_step resolve relative confItem a st = Some st1" and
    r: "autosync_run resolve relative confItem st1 as = Some st'"
    by (auto split: option.splits)
  from autosync_step_inited [OF Cons.prems(1) s] Cons.IH [OF _ r] show ?case by simp
qed

lemma trigger_removes:
  "isInited st \<Longrightarrow> k = unlink \<or> k = unlinkDir \<Longrightarrow>
   fs_calls (autosync_onTrigger resolve relative confItem oc (k, filepath, stats) st) =
   fs_calls st @ [Remove (dstPath resolve relative confItem filepath)]"
  by (simp add: autosync_onTrigger_def incremental_def unlink_names Let_def)

lemma trigger_copies:
  assumes "isInited st" and "k \<noteq> unlink" and "k \<noteq> unlinkDir"
  shows "\<exists>rest.
     fs_calls (autosync_onTrigger resolve relative confItem oc (k, filepath, stats) st) =
       fs_calls st @ Copy filepath (dstPath resolve relative confItem filepath) # rest \<and>
     (if k = addDir
      then rest = (if copy_ok oc
                   then [LogCopied filepath (dstPath resolve relative confItem filepath)] else [])
      else if copy_ok oc
      then \<exists>rest'. rest = Chmod (dstPath resolve relative confItem filepath) mode_0444 # rest'
      else rest = [])"
  using assms
  by (cases k)
     (simp_all add: autosync_onTrigger_def incremental_def startsWith_def endsWith_def
        suffix_to_prefix Let_def)

lemma autosync_run_append:
  "autosync_run resolve relative confItem st (as @ bs) =
     (case autosync_run resolve relative confItem st as of
        None \<Rightarrow> None
      | Some st' \<Rightarrow> autosync_run resolve relative confItem st' bs)"
  by (induction as arbitrary: st) (auto split: option.splits)

text \<open>The return of a bulk sync sets \<open>isInited\<close>.\<close>

lemma bulk_returned_inited:
  "syncByConfigItem_settled Returns st = Some st' \<Longrightarrow> isInited st'"
  by (auto simp: syncByConfigItem_settled_def split: if_splits)

lemma inited_after_bulk_returned:
  assumes "autosync_run resolve relative confItem st0 (as1 @ BulkSettled Returns # as2) = Some st"
  shows "isInited st"
proof -
  from assms obtain st1 st2 where
    "autosync_run resolve relative confItem st0 as1 = Some st1"
    and b: "syncByConfigItem_settled Returns st1 = Some st2"
    and r: "autosync_run resolve relative confItem st2 as2 = Some st"
    by (auto simp: autosync_run_append split: option.splits)
  from autosync_run_inited [OF bulk_returned_inited [OF b] r] show ?thesis by simp
qed

text \<open>
  Claim C7, as amended. The first run of the trigger of a copy watch calls the bulk sync
  \<^verbatim>\<open>syncByConfigItem\<close> and nothing else. Take any state \<open>st\<close> the watch reaches from its
  start by a schedule in which a bulk sync has returned. Then \<open>isInited\<close> is set in \<open>st\<close>,
  and every run of the trigger from there on is incremental and no bulk sync is started
  again: for \<^verbatim>\<open>unlink\<close> and \<^verbatim>\<open>unlinkDir\<close> the trigger removes the destination mapped from
  the event's path and does nothing else; for any other event it copies the event's path
  to the mapped destination, and when the copy succeeds it then sets the destination's
  mode to 0444, unless the event is \<^verbatim>\<open>addDir\<close>, for which no mode is set.
\<close>

theorem copy_watch_bulk_then_incremental:
  assumes "autosync_run resolve relative confItem init_autosync (as1 @ BulkSettled Returns # as2)
     = Some st"
  shows
    "fs_calls (autosync_onTrigger resolve relative confItem oc ev init_autosync) =
       [SyncByConfigItem confItem] \<and>
     isInited st \<and>
     (\<forall>as st'. autosync_run resolve relative confItem st as = Some st' \<longrightarrow>
        isInited st' \<and> filter is_bulk (fs_calls st') = filter is_bulk (fs_calls st)) \<and>
     (\<forall>k filepath stats. k = unlink \<or> k = unlinkDir \<longrightarrow>
        fs_calls (autosync_onTrigger resolve relative confItem oc (k, filepath, stats) st) =
        fs_calls st @ [Remove (dstPath resolve relative confItem filepath)]) \<and>
     (\<forall>k filepath stats. k \<noteq> unlink \<and> k \<noteq> unlinkDir \<longrightarrow>
        (\<exists>rest.
           fs_calls (autosync_onTrigger resolve relative confItem oc (k, filepath, stats) st) =
             fs_calls st @ Copy filepath (dstPath resolve relative confItem filepath) # rest \<and>
           (if k = addDir
            then rest = (if copy_ok oc
                         then [LogCopied filepath (dstPath resolve relative confItem filepath)]
                         else [])
            else if copy_ok oc
            then \<exists>rest'. rest = Chmod (dstPath resolve relative confItem filepath) mode_0444 # rest'
            else rest = [])))"
proof -
  note ini = inited_after_bulk_returned [OF assms]
  have first: "fs_calls (autosync_onTrigger resolve relative confItem oc ev init_autosync) =
       [SyncByConfigItem confItem]"
    by (simp add: autosync_onTrigger_def init_autosync_def)
  have run: "\<forall>as st'. autosync_run resolve relative confItem st as = Some st' \<longrightarrow>
        isInited st' \<and> filter is_bulk (fs_calls st') = filter is_bulk (fs_calls st)"
    by (intro allI impI) (rule autosync_run_inited [OF ini])
  have rm: "\<forall>k filepath stats. k = unlink \<or> k = unlinkDir \<longrightarrow>
        fs_calls (autosync_onTrigger resolve relative confItem oc (k, filepath, stats) st) =
        fs_calls st @ [Remove (dstPath resolve relative confItem filepath)]"
    by (intro allI impI) (rule trigger_removes [OF ini])
  have cp: "\<forall>k filepath stats. k \<noteq> unlink \<and> k \<noteq> unlinkDir \<longrightarrow>
        (\<exists>rest.
           fs_calls (autosync_onTrigger resolve relative confItem oc (k, filepath, stats) st) =
             fs_calls st @ Copy filepath (dstPath resolve relative confItem filepath) # rest \<and>
           (if k = addDir
            then rest = (if copy_ok oc
                         then [LogCopied filepath (dstPath resolve relative confItem filepath)]
                         else [])
            else if copy_ok oc
            then \<exists>rest'. rest = Chmod (dstPath resolve relative confItem filepath) mode_0444 # rest'
            else rest = []))"
    by (intro allI impI, elim conjE) (rule trigger_copies [OF ini])
  show ?thesis
    by (rule conjI [OF first conjI [OF ini conjI [OF run conjI [OF rm cp]]]])
qed

text \<open>
  Claim C7 as stated fails in two ways. After the bulk sync has returned, an \<^verbatim>\<open>addDir\<close>
  event for \<^verbatim>\<open>src/shared/models\<close> copies the directory to its destination and sets no mode
  (the source guards \<^verbatim>\<open>chmod\<close> with \<^verbatim>\<open>!eventName.endsWith('Dir')\<close>). And a second run of
  the trigger that starts while the first bulk sync has not returned finds \<open>isInited\<close>
  unset (it is set after the \<^verbatim>\<open>await\<close>) and is a bulk sync again, not an incremental
  action.
\<close>

theorem copy_watch_not_always_incremental_chmod:
  "autosync_run example_resolve example_relative example_sync init_autosync
     [TriggerFired all_ok shared_a, BulkSettled Returns,
      TriggerFired all_ok (addDir, ''src/shared/models'', None)] =
   Some \<lparr>isInited = True, bulk_pending = 0,
         fs_calls =
           [SyncByConfigItem example_sync,
            Copy ''src/shared/models'' ''/proj/front/shared/models'',
            LogCopied ''src/shared/models'' ''/proj/front/shared/models'']\<rparr> \<and>
   autosync_run example_resolve example_relative example_sync init_autosync
     [TriggerFired all_ok shared_a, TriggerFired all_ok shared_b] =
   Some \<lparr>isInited = False, bulk_pending = 2,
         fs_calls = [SyncByConfigItem example_sync, SyncByConfigItem example_sync]\<rparr>"
  by (simp add: init_autosync_def autosync_onTrigger_def syncByConfigItem_settled_def
      incremental_def dstPath_def example_resolve_def example_relative_def example_sync_def
      all_ok_def startsWith_def endsWith_def suffix_to_prefix Let_def)

lemma run_example_inited:
  "autosync_run example_resolve example_relative example_sync init_autosync
     ([TriggerFired all_ok shared_a] @ BulkSettled Returns # []) = Some example_inited"
  by (simp add: init_autosync_def example_inited_def autosync_onTrigger_def
      syncByConfigItem_settled_def)

theorem copy_watch_bulk_then_incremental_witness:
  "autosync_run example_resolve example_relative example_sync init_autosync
     ([TriggerFired all_ok shared_a] @ BulkSettled Returns # []) = Some example_inited \<and>
   fs_calls (autosync_onTrigger example_resolve example_relative example_sync all_ok shared_a
      init_autosync) = [SyncByConfigItem example_sync] \<and>
   isInited example_inited \<and>
   autosync_run example_resolve example_relative example_sync example_inited
     [TriggerFired all_ok shared_a] =
   Some (autosync_onTrigger example_resolve example_relative example_sync all_ok shared_a
           example_inited) \<and>
   isInited (autosync_onTrigger example_resolve example_relative example_sync all_ok shared_a
           example_inited) \<and>
   fs_calls (autosync_onTrigger example_resolve example_relative example_sync all_ok
           (unlink, ''src/shared/a.ts'', None) example_inited) =
     [SyncByConfigItem example_sync, Remove ''/proj/front/shared/a.ts''] \<and>
   (\<exists>rest. fs_calls (autosync_onTrigger example_resolve example_relative example_sync all_ok
           (change, ''src/shared/a.ts'', None) example_inited) =
     SyncByConfigItem example_sync # Copy ''src/shared/a.ts'' ''/proj/front/shared/a.ts'' #
     Chmod ''/proj/front/shared/a.ts'' 292 # rest)"
proof -
  have d: "dstPath example_resolve example_relative example_sync ''src/shared/a.ts'' =
      ''/proj/front/shared/a.ts''"
    by (simp add: dstPath_def example_resolve_def example_relative_def example_sync_def)
  have c: "copy_ok all_ok" "fs_calls example_inited = [SyncByConfigItem example_sync]"
    "mode_0444 = 292"
    by (simp_all add: all_ok_def example_inited_def mode_0444_def)
  note main = copy_watch_bulk_then_incremental
    [OF run_example_inited, where oc = all_ok and ev = shared_a]
  have r: "autosync_run example_resolve example_relative example_sync example_inited
     [TriggerFired all_ok shared_a] =
   Some (autosync_onTrigger example_resolve example_relative example_sync all_ok shared_a
           example_inited)"
    by simp
  note 1 = main [THEN conjunct1]
  note i = main [THEN conjunct2, THEN conjunct1]
  note 2 = main [THEN conjunct2, THEN conjunct2, THEN conjunct1, rule_format, OF r, THEN conjunct1]
  have 3: "fs_calls (autosync_onTrigger example_resolve example_relative example_sync
      all_ok (unlink, ''src/shared/a.ts'', None) example_inited) =
      fs_calls example_inited @
      [Remove (dstPath example_resolve example_relative example_sync ''src/shared/a.ts'')]"
    by (rule main [THEN conjunct2, THEN conjunct2, THEN conjunct2, THEN conjunct1, rule_format]) simp
  have "\<exists>rest.
           fs_calls (autosync_onTrigger example_resolve example_relative example_sync all_ok
             (change, ''src/shared/a.ts'', None) example_inited) =
             fs_calls example_inited @ Copy ''src/shared/a.ts''
               (dstPath example_resolve example_relative example_sync ''src/shared/a.ts'') # rest \<and>
           (if change = addDir
            then rest = (if copy_ok all_ok
                         then [LogCopied ''src/shared/a.ts''
                           (dstPath example_resolve example_relative example_sync ''src/shared/a.ts'')]
                         else [])
            else if copy_ok all_ok
            then \<exists>rest'. rest = Chmod (dstPath example_resolve example_relative example_sync
                ''src/shared/a.ts'') mode_0444 # rest'
            else rest = [])"
    by (rule main [THEN conjunct2, THEN conjunct2, THEN conjunct2, THEN conjunct2, rule_format]) simp
  then have 4: "\<exists>rest. fs_calls (autosync_onTrigger example_resolve example_relative example_sync
      all_ok (change, ''src/shared/a.ts'', None) example_inited) =
     SyncByConfigItem example_sync # Copy ''src/shared/a.ts'' ''/proj/front/shared/a.ts'' #
     Chmod ''/proj/front/shared/a.ts'' 292 # rest"
    by (auto simp: d c)
  from run_example_inited 1 i r 2 3 4 show ?thesis by (simp add: d c)
qed

subsection \<open>The trigger of a schema watch\<close>

text \<open>
  Claim C8. When the regeneration of the schema fails, the trigger logs the error's
  message and its own promise is still fulfilled, so nothing reaches the watch; the
  calls of that trigger are the regeneration and the log only: no artifact is written and
  no API stubs are generated. When the regeneration yields a new schema, \<^verbatim>\<open>autoApi\<close> is on
  and an API directory is configured, the same run of the trigger goes on to generate
  the API stubs from the new schema, and settles as that call does.
\<close>

theorem schema_trigger_outcomes:
  "autoproto_onTrigger auto_api confItem old (GenRejected msg) api_result =
     ([GenProtoByConfigItem confItem old, ConsoleError msg], Returns) \<and>
   (auto_api \<and> apiDir confItem = Some d \<and> d \<noteq> [] \<longrightarrow>
      autoproto_onTrigger auto_api confItem old (GenResolved (Some p)) api_result =
        ([GenProtoByConfigItem confItem old, WriteProto (output_path confItem) p,
          GenApiFiles p (ptlDir confItem) d], api_result))"
  by (simp add: autoproto_onTrigger_def genProtoByConfigItem_def truthy_def)

theorem schema_trigger_outcomes_witness:
  "apiDir example_proto = Some ''src/api'' \<and>
   autoproto_onTrigger True example_proto (None :: nat option) (GenRejected ''syntax error'') Returns =
     ([GenProtoByConfigItem example_proto None, ConsoleError ''syntax error''], Returns) \<and>
   autoproto_onTrigger True example_proto None (GenResolved (Some (7 :: nat))) Returns =
     ([GenProtoByConfigItem example_proto None,
       WriteProto ''src/shared/protocols/serviceProto.ts'' 7,
       GenApiFiles 7 ''src/shared/protocols'' ''src/api''], Returns)"
proof -
  have a: "apiDir example_proto = Some ''src/api''" by (simp add: example_proto_def)
  note main = schema_trigger_outcomes
    [of True example_proto "None :: nat option" "''syntax error''" Returns "''src/api''" 7]
  from main [THEN conjunct1] main [THEN conjunct2, rule_format] a
  show ?thesis by (simp add: example_proto_def)
qed

subsection \<open>Links before watches\<close>

lemma auto_link_no_watch: "list_all (\<lambda>c. \<not> starts_watching c) (fst (auto_link link_ok items))"
  by (induction items) (auto split: prod.splits)

lemma auto_link_all_ok:
  "list_all link_ok items \<Longrightarrow>
   snd (auto_link link_ok items) = None \<and>
   filter is_EnsureSymlink (fst (auto_link link_ok items)) =
     map (\<lambda>v. EnsureSymlink (sync_from v) (sync_to v)) items"
  by (induction items) (auto split: prod.splits)

lemma auto_link_prefix:
  "prefix (filter is_EnsureSymlink (fst (auto_link link_ok items)))
     (map (\<lambda>v. EnsureSymlink (sync_from v) (sync_to v)) items)"
  by (induction items) (auto split: prod.splits)

lemma auto_link_failed:
  "\<not> list_all link_ok items \<Longrightarrow>
   \<exists>item. snd (auto_link link_ok items) = Some (LinkFailed item) \<and> item \<in> set items \<and> \<not> link_ok item"
  by (induction items) (auto split: prod.splits)

lemma auto_link_result:
  "snd (auto_link link_ok items) = None \<longleftrightarrow> list_all link_ok items"
  by (induction items) (auto split: prod.splits)

lemma auto_proto_no_link:
  "list_all (\<lambda>c. \<not> is_EnsureSymlink c) (fst (auto_proto load_ok dl i items))"
  by (induction items arbitrary: i) (simp_all add: case_prod_beta)

lemma auto_copy_no_link: "list_all (\<lambda>c. \<not> is_EnsureSymlink c) (auto_copy dl idx items)"
  by (induction items arbitrary: idx) auto

lemma proto_watches_no_link:
  "list_all (\<lambda>c. \<not> is_EnsureSymlink c) (fst (proto_watches load_ok conf))"
  by (simp add: proto_watches_def auto_proto_no_link split: option.splits)

lemma copy_watches_no_link: "list_all (\<lambda>c. \<not> is_EnsureSymlink c) (copy_watches conf)"
  by (simp add: copy_watches_def auto_copy_no_link split: option.splits)

lemma cmdDev_split:
  "\<exists>post. fst (cmdDev link_ok load_ok conf) = fst (auto_link link_ok (linkConfs conf)) @ post \<and>
     list_all (\<lambda>c. \<not> is_EnsureSymlink c) post \<and>
     (snd (auto_link link_ok (linkConfs conf)) \<noteq> None \<longrightarrow>
        post = [] \<and> snd (cmdDev link_ok load_ok conf) = snd (auto_link link_ok (linkConfs conf)))"
proof (cases "auto_link link_ok (linkConfs conf)")
  case (Pair links r)
  show ?thesis
  proof (cases r)
    case (Some err)
    with Pair show ?thesis by (simp add: cmdDev_def)
  next
    case None
    obtain protos r' where P: "proto_watches load_ok conf = (protos, r')"
      by (cases "proto_watches load_ok conf")
    from proto_watches_no_link [of load_ok conf] P
    have np: "list_all (\<lambda>c. \<not> is_EnsureSymlink c) protos" by simp
    show ?thesis
      using Pair None P np copy_watches_no_link [of conf]
      by (cases r') (simp_all add: cmdDev_def)
  qed
qed

text \<open>
  Claim C9. The calls of \<^verbatim>\<open>cmdDev\<close> split in two: first the links, in which no watch is
  created and the process is not started, then the rest, in which no link is made. The
  links are made one after the other in the order of the configuration: the calls of
  \<^verbatim>\<open>ensureSymlink\<close> are an initial segment of the configured links, and all of them when
  each succeeds. When a link fails, \<^verbatim>\<open>cmdDev\<close> ends with that error and the second part
  is empty: no watch is created and the process is not started.
\<close>

theorem links_before_watches:
  "\<exists>pre post.
     fst (cmdDev link_ok load_ok conf) = pre @ post \<and>
     list_all (\<lambda>c. \<not> starts_watching c) pre \<and>
     list_all (\<lambda>c. \<not> is_EnsureSymlink c) post \<and>
     prefix (filter is_EnsureSymlink pre)
       (map (\<lambda>v. EnsureSymlink (sync_from v) (sync_to v)) (linkConfs conf)) \<and>
     (if list_all link_ok (linkConfs conf)
      then filter is_EnsureSymlink pre =
             map (\<lambda>v. EnsureSymlink (sync_from v) (sync_to v)) (linkConfs conf)
      else post = [] \<and>
           (\<exists>item. snd (cmdDev link_ok load_ok conf) = Some (LinkFailed item) \<and>
              item \<in> set (linkConfs conf) \<and> \<not> link_ok item))"
proof -
  let ?pre = "fst (auto_link link_ok (linkConfs conf))"
  from cmdDev_split [of link_ok load_ok conf] obtain post where
    post: "fst (cmdDev link_ok load_ok conf) = ?pre @ post"
      "list_all (\<lambda>c. \<not> is_EnsureSymlink c) post"
      "snd (auto_link link_ok (linkConfs conf)) \<noteq> None \<longrightarrow>
        post = [] \<and> snd (cmdDev link_ok load_ok conf) = snd (auto_link link_ok (linkConfs conf))"
    by blast
  have last: "if list_all link_ok (linkConfs conf)
      then filter is_EnsureSymlink ?pre =
             map (\<lambda>v. EnsureSymlink (sync_from v) (sync_to v)) (linkConfs conf)
      else post = [] \<and>
           (\<exists>item. snd (cmdDev link_ok load_ok conf) = Some (LinkFailed item) \<and>
              item \<in> set (linkConfs conf) \<and> \<not> link_ok item)"
  proof (cases "list_all link_ok (linkConfs conf)")
    case True
    with auto_link_all_ok [OF True] show ?thesis by simp
  next
    case False
    from auto_link_failed [OF False] obtain item where
      "snd (auto_link link_ok (linkConfs conf)) = Some (LinkFailed item)"
      "item \<in> set (linkConfs conf)" "\<not> link_ok item"
      by blast
    with post(3) False show ?thesis by auto
  qed
  from post(1) auto_link_no_watch [of link_ok "linkConfs conf"] post(2)
    auto_link_prefix [of link_ok "linkConfs conf"] last
  show ?thesis by blast
qed


theorem links_before_watches_witness:
  "\<not> list_all (\<lambda>v. False) (linkConfs example_config) \<and>
   list_all (\<lambda>c. \<not> starts_watching c) (fst (cmdDev (\<lambda>v. False) (\<lambda>c. True) example_config)) \<and>
   snd (cmdDev (\<lambda>v. False) (\<lambda>c. True) example_config) = Some (LinkFailed example_link) \<and>
   cmdDev (\<lambda>v. True) (\<lambda>c. True) example_config =
     ([Doing ''src/shared'' ''app/shared'', EnsureSymlink ''src/shared'' ''app/shared'', Done,
       LoadOldProto example_proto, DelayWatch (AutoProto 0) ''src/shared/protocols'' 1000,
       DelayWatch (AutoSync 1) ''src/shared'' 1000,
       DelayWatch DEV_SERVER ''src'' 1000, StartDevServer], None)"
proof -
  have l: "linkConfs example_config = [example_link]"
    by (simp add: linkConfs_def example_config_def example_link_def example_sync_def)
  have n: "\<not> list_all (\<lambda>v. False) (linkConfs example_config)"
    by (simp add: l)
  from links_before_watches [of "\<lambda>v. False" "\<lambda>c. True" example_config] n
  obtain pre item where
    "fst (cmdDev (\<lambda>v. False) (\<lambda>c. True) example_config) = pre @ []"
    "list_all (\<lambda>c. \<not> starts_watching c) pre"
    "snd (cmdDev (\<lambda>v. False) (\<lambda>c. True) example_config) = Some (LinkFailed item)"
    "item \<in> set (linkConfs example_config)"
    by auto
  then have 1: "list_all (\<lambda>c. \<not> starts_watching c) (fst (cmdDev (\<lambda>v. False) (\<lambda>c. True) example_config))"
    and 2: "snd (cmdDev (\<lambda>v. False) (\<lambda>c. True) example_config) = Some (LinkFailed example_link)"
    by (simp_all add: l)
  have 3: "cmdDev (\<lambda>v. True) (\<lambda>c. True) example_config =
     ([Doing ''src/shared'' ''app/shared'', EnsureSymlink ''src/shared'' ''app/shared'', Done,
       LoadOldProto example_proto, DelayWatch (AutoProto 0) ''src/shared/protocols'' 1000,
       DelayWatch (AutoSync 1) ''src/shared'' 1000,
       DelayWatch DEV_SERVER ''src'' 1000, StartDevServer], None)"
  proof -
    have a: "auto_link (\<lambda>v. True) (linkConfs example_config) =
        ([Doing ''src/shared'' ''app/shared'', EnsureSymlink ''src/shared'' ''app/shared'', Done],
         None)"
      by (simp add: l example_link_def)
    have b: "proto_watches (\<lambda>c. True) example_config =
        ([LoadOldProto example_proto, DelayWatch (AutoProto 0) ''src/shared/protocols'' 1000], None)"
      by (simp add: proto_watches_def example_config_def example_proto_def autoProto_def
          watch_delay_def dev_field_def DEFAULT_DELAY_def)
    have c: "copy_watches example_config = [DelayWatch (AutoSync 1) ''src/shared'' 1000]"
      by (simp add: copy_watches_def example_config_def example_link_def example_sync_def
          autoSync_def watch_delay_def dev_field_def DEFAULT_DELAY_def)
    have d: "watchFiles example_config = ''src''" "watch_delay example_config = 1000"
      by (simp_all add: example_config_def watchFiles_def watch_delay_def dev_field_def
          DEFAULT_DELAY_def)
    show ?thesis by (simp add: cmdDev_def a b c d)
  qed
  from n 1 2 3 show ?thesis by simp
qed
section \<open>Properties of the supervisor\<close>

subsection \<open>The invariant holds in every reachable state of the session\<close>

lemma sorted_wrt_remove1: "sorted_wrt P xs \<Longrightarrow> sorted_wrt P (remove1 x xs)"
  by (induction xs) (auto dest: notin_set_remove1)

lemma sorted_wrt_map_remove1:
  "sorted_wrt P (map f xs) \<Longrightarrow> sorted_wrt P (map f (remove1 x xs))"
  by (induction xs) (auto dest: notin_set_remove1)

lemma list_all_remove1: "list_all P xs \<Longrightarrow> list_all P (remove1 x xs)"
  by (induction xs) auto

lemma strict_sorted_remove1_fst:
  "sorted_wrt (<) (map fst xs) \<Longrightarrow> a \<in> set xs \<Longrightarrow> \<not> list_ex (\<lambda>b. fst b = fst a) (remove1 a xs)"
  for xs :: "(nat \<times> nat) list"
  by (induction xs) (auto simp: list_ex_iff dest: notin_set_remove1)

lemma init_watch_fields:
  "timer init_watch = None" "\<not> isProcessing init_watch" "awaiting init_watch = []"
  by (simp_all add: init_watch_def)

lemma dev_inv_init: "dev_inv dl init_dev"
  by (simp add: dev_inv_def init_dev_def startDevServer_def watch_inv_init window_open_def
      init_watch_fields)

lemma dev_inv_advance:
  "dev_inv dl s \<Longrightarrow> dev_inv dl (s\<lparr>engine := (engine s)\<lparr>now := now (engine s) + d\<rparr>\<rparr>)"
  by (auto simp: dev_inv_def watch_inv_advance window_open_def split: option.splits)

text \<open>What the engine's steps do to the fields the supervisor looks at.\<close>

lemma leading_edge_then_resumed:
  assumes "watch_inv opts w" and "leading_edge w"
  shows "\<exists>w'. onWillTrigger_settled opts Returns (delayWatch_onWillTrigger opts e w) = Some w' \<and>
     watch_inv opts w' \<and> timer w' \<noteq> None \<and> \<not> isProcessing w' \<and> awaiting w' = [] \<and> now w' = now w"
proof -
  have i1: "watch_inv opts (delayWatch_onWillTrigger opts e w)"
    by (rule watch_inv_event [OF assms(1)])
  from assms have aw: "awaiting w = []" by (simp add: watch_inv_def leading_edge_def)
  obtain w' where w': "onWillTrigger_settled opts Returns (delayWatch_onWillTrigger opts e w) = Some w'"
    using assms(2) by (simp add: onWillTrigger_settled_def delayWatch_onWillTrigger_def leading_edge_def aw)
  have i2: "watch_inv opts w'" by (rule watch_inv_settled [OF i1 w'])
  from w' assms(2) aw have "timer w' \<noteq> None \<and> \<not> isProcessing w' \<and> awaiting w' = [] \<and> now w' = now w"
    by (auto simp: onWillTrigger_settled_def delayWatch_onWillTrigger_def leading_edge_def
        set_new_timer_def setTimeout_def)
  with w' i2 show ?thesis by blast
qed

lemma leading_edge_suspends:
  assumes "watch_inv opts w" and "leading_edge w"
  shows "watch_inv opts (delayWatch_onWillTrigger opts e w) \<and>
     timer (delayWatch_onWillTrigger opts e w) = None \<and>
     isProcessing (delayWatch_onWillTrigger opts e w) \<and>
     awaiting (delayWatch_onWillTrigger opts e w) \<noteq> []"
  using assms watch_inv_event [OF assms(1), of e]
  by (simp add: delayWatch_onWillTrigger_def leading_edge_def)

lemma no_leading_edge_event:
  assumes "watch_inv opts w" and "\<not> leading_edge w"
  shows "watch_inv opts (delayWatch_onWillTrigger opts e w) \<and>
     (timer (delayWatch_onWillTrigger opts e w) \<noteq> None) = (timer w \<noteq> None) \<and>
     isProcessing (delayWatch_onWillTrigger opts e w) = isProcessing w \<and>
     awaiting (delayWatch_onWillTrigger opts e w) = awaiting w \<and>
     window_open (delayWatch_onWillTrigger opts e w) \<and> window_open w"
  using assms watch_inv_event [OF assms(1), of e]
  by (cases "timer w")
     (auto simp: delayWatch_onWillTrigger_def leading_edge_def window_open_def set_new_timer_def
        setTimeout_def clearTimeout_def)


lemma killing_isProcessing:
  "dev_inv dl s \<Longrightarrow> (killing s = None) = (\<not> isProcessing (engine s))"
  by (cases "killing s") (auto simp: dev_inv_def watch_inv_def split: if_splits)

lemma list_all_less_Suc:
  "list_all (\<lambda>a. fst a \<le> n) xs \<Longrightarrow> list_all (\<lambda>a. fst a < Suc n) xs"
  for xs :: "(nat \<times> nat) list"
  by (induction xs) auto

lemma list_all_less_no_ex:
  "list_all (\<lambda>a. fst a < n) xs \<Longrightarrow> \<not> list_ex (\<lambda>a. fst a = n) xs"
  for xs :: "(nat \<times> nat) list"
  by (induction xs) auto

lemma list_all_less_le:
  "list_all (\<lambda>a. fst a < n) xs \<Longrightarrow> list_all (\<lambda>a. fst a \<le> n) xs"
  for xs :: "(nat \<times> nat) list"
  by (induction xs) auto

lemma dev_inv_event:
  assumes inv: "dev_inv dl s" and st: "dev_event dl e s = Some s'"
  shows "dev_inv dl s'"
proof (cases "leading_edge (engine s)")
  case True
  note wi = inv [unfolded dev_inv_def, THEN conjunct1]
  from True killing_isProcessing [OF inv] have k: "killing s = None"
    by (simp add: leading_edge_def)
  from inv have le: "list_all (\<lambda>a. fst a \<le> devServerRestartTimes s) (starting s)"
    by (simp add: dev_inv_def)
  note lt = list_all_less_Suc [OF le]
  note nex = list_all_less_no_ex [OF lt]
  note le' = list_all_less_le [OF lt]
  show ?thesis
  proof (cases "devServer s")
    case None
    from leading_edge_then_resumed [OF wi True, of e] obtain w' where
      w': "onWillTrigger_settled (dev_options dl) Returns
             (delayWatch_onWillTrigger (dev_options dl) e (engine s)) = Some w'"
        "watch_inv (dev_options dl) w'" "timer w' \<noteq> None" "\<not> isProcessing w'" "awaiting w' = []"
      by blast
    from st True None w' have s': "s' = s\<lparr>engine := w',
        devServerRestartTimes := Suc (devServerRestartTimes s)\<rparr>"
      by (auto simp: dev_event_def handler_resumes_def)
    from inv have "alive s = []" "sorted_wrt (<) (map fst (starting s))"
      using None by (simp_all add: dev_inv_def)
    with w' k None lt nex le' show ?thesis
      by (simp add: s' dev_inv_def)
  next
    case (Some p)
    note su = leading_edge_suspends [OF wi True, of e]
    from st True Some have s': "s' = s\<lparr>engine := delayWatch_onWillTrigger (dev_options dl) e (engine s),
        devServerRestartTimes := Suc (devServerRestartTimes s),
        killing := Some p, proc_calls := proc_calls s @ [Kill p]\<rparr>"
      by (auto simp: dev_event_def)
    from inv have "alive s = [] \<or> alive s = [p]" "sorted_wrt (<) (map fst (starting s))"
      using Some by (simp_all add: dev_inv_def)
    with su Some lt nex le' show ?thesis
      by (simp add: s' dev_inv_def)
  qed
next
  case False
  note wi = inv [unfolded dev_inv_def, THEN conjunct1]
  note ne = no_leading_edge_event [OF wi False, of e]
  from st False have s': "s' = s\<lparr>engine := delayWatch_onWillTrigger (dev_options dl) e (engine s)\<rparr>"
    by (auto simp: dev_event_def)
  from inv ne show ?thesis
    by (auto simp: s' dev_inv_def split: option.splits)
qed


lemma fire_fields:
  assumes "watch_inv opts w" and "fire opts r w = Some w'"
  shows "watch_inv opts w' \<and> timer w \<noteq> None \<and> \<not> isProcessing w \<and>
         timer w' = None \<and> \<not> isProcessing w' \<and> now w' = now w"
  using assms watch_inv_fire [OF assms]
  by (cases "timer w")
     (auto simp: watch_inv_def fire_def timer_callback_def clearTimeout_def
        split: if_splits list.splits)

lemma settled_fields:
  assumes "watch_inv opts w" and "awaiting w \<noteq> []"
  shows "\<exists>w'. onWillTrigger_settled opts Returns w = Some w' \<and> watch_inv opts w' \<and>
           timer w' \<noteq> None \<and> \<not> isProcessing w' \<and> awaiting w' = []"
proof -
  from assms obtain e where e: "awaiting w = [e]"
    by (cases "awaiting w") (auto simp: watch_inv_def)
  then obtain w' where w': "onWillTrigger_settled opts Returns w = Some w'"
    by (simp add: onWillTrigger_settled_def)
  from watch_inv_settled [OF assms(1) w'] w' e show ?thesis
    by (auto simp: onWillTrigger_settled_def set_new_timer_def setTimeout_def)
qed

lemma dev_inv_fire:
  assumes inv: "dev_inv dl s" and st: "dev_fire dl s = Some s'"
  shows "dev_inv dl s'"
proof -
  note wi = inv [unfolded dev_inv_def, THEN conjunct1]
  from st obtain w where w: "fire (dev_options dl) Returns (engine s) = Some w"
    and s': "s' = s\<lparr>engine := w,
                   starting := starting s @ [(devServerRestartTimes s, now w + 200)]\<rparr>"
    by (auto simp: dev_fire_def startDevServer_def split: option.splits)
  note ff = fire_fields [OF wi w]
  from ff have wo: "window_open (engine s)" by (simp add: window_open_def)
  from ff killing_isProcessing [OF inv] have k: "killing s = None" by simp
  from inv ff have d: "devServer s = None" by (simp add: dev_inv_def)
  with inv have a: "alive s = []" by (simp add: dev_inv_def)
  from inv wo have lt: "list_all (\<lambda>a. fst a < devServerRestartTimes s) (starting s)"
    by (simp add: dev_inv_def)
  from inv have so: "sorted_wrt (<) (map fst (starting s))" by (simp add: dev_inv_def)
  from lt have so': "sorted_wrt (<) (map fst (starting s) @ [devServerRestartTimes s])"
    using so by (auto simp: sorted_wrt_append list_all_iff)
  from ff k d a lt so' list_all_less_le [OF lt] show ?thesis
    by (simp add: s' dev_inv_def window_open_def)
qed

lemma first_due_member:
  "filter P xs = a # rest \<Longrightarrow> a \<in> set xs"
  by (metis filter_is_subset list.set_intros(1) subsetD)

lemma list_ex_remove1: "list_ex P (remove1 x xs) \<Longrightarrow> list_ex P xs"
  using set_remove1_subset [of x xs] by (auto simp: list_ex_iff)

lemma dev_inv_settled:
  assumes inv: "dev_inv dl s" and st: "startDevServer_resume s = Some s'"
  shows "dev_inv dl s'"
proof -
  from st obtain a rest where
    f: "filter (\<lambda>a. snd a \<le> now (engine s)) (starting s) = a # rest"
    by (auto simp: startDevServer_resume_def split: list.splits)
  note mem = first_due_member [OF f]
  from inv have so: "sorted_wrt (<) (map fst (starting s))"
    and le: "list_all (\<lambda>a. fst a \<le> devServerRestartTimes s) (starting s)"
    by (simp_all add: dev_inv_def)
  note so' = sorted_wrt_map_remove1 [OF so, of a]
  note le' = list_all_remove1 [OF le, of a]
  show ?thesis
  proof (cases "devServerRestartTimes s = fst a")
    case False
    with st f have s': "s' = s\<lparr>starting := remove1 a (starting s)\<rparr>"
      by (auto simp: startDevServer_resume_def Let_def)
    from inv so' le' show ?thesis
      by (auto simp: s' dev_inv_def dest: list_ex_remove1 intro: list_all_remove1
          split: option.splits)
  next
    case True
    with st f have s': "s' = s\<lparr>starting := remove1 a (starting s),
        devServer := Some (next_pid s), alive := alive s @ [next_pid s],
        next_pid := Suc (next_pid s), proc_calls := proc_calls s @ [Exec (next_pid s)]\<rparr>"
      by (auto simp: startDevServer_resume_def Let_def)
    from mem True have ex: "list_ex (\<lambda>b. fst b = devServerRestartTimes s) (starting s)"
      by (auto simp: list_ex_iff)
    with inv have d: "devServer s = None" by (simp add: dev_inv_def)
    with inv have al: "alive s = []" by (simp add: dev_inv_def)
    from inv ex have nw: "\<not> window_open (engine s)"
      by (auto simp: dev_inv_def dest: list_all_less_no_ex)
    then have t: "timer (engine s) = None" "\<not> isProcessing (engine s)"
      by (simp_all add: window_open_def)
    with killing_isProcessing [OF inv] have k: "killing s = None" by simp
    from strict_sorted_remove1_fst [OF so mem] True
    have nex: "\<not> list_ex (\<lambda>b. fst b = devServerRestartTimes s) (remove1 a (starting s))"
      by simp
    from inv have wi: "watch_inv (dev_options dl) (engine s)" by (simp add: dev_inv_def)
    from wi al k t so' le' nex show ?thesis
      by (simp add: s' dev_inv_def window_open_def)
  qed
qed

lemma dev_inv_exit:
  assumes inv: "dev_inv dl s" and st: "proc_exit dl p s = Some s'"
  shows "dev_inv dl s'"
proof -
  from st have mem: "p \<in> set (alive s)"
    by (auto simp: proc_exit_def split: if_splits)
  with inv have d: "devServer s = Some p" and al: "alive s = [p]"
    by (auto simp: dev_inv_def split: option.splits)
  note wi = inv [unfolded dev_inv_def, THEN conjunct1]
  show ?thesis
  proof (cases "killing s = Some p")
    case True
    with inv have aw: "awaiting (engine s) \<noteq> []" by (simp add: dev_inv_def)
    from settled_fields [OF wi aw] obtain w' where
      w': "onWillTrigger_settled (dev_options dl) Returns (engine s) = Some w'"
        "watch_inv (dev_options dl) w'" "timer w' \<noteq> None" "\<not> isProcessing w'" "awaiting w' = []"
      by blast
    from st mem True w' al have s': "s' = s\<lparr>alive := [], proc_calls := proc_calls s @ [Exit p],
        killing := None, devServer := None, engine := w'\<rparr>"
      by (auto simp: proc_exit_def handler_resumes_def Let_def)
    from True killing_isProcessing [OF inv] have "window_open (engine s)"
      by (simp add: window_open_def)
    with inv have lt: "list_all (\<lambda>a. fst a < devServerRestartTimes s) (starting s)"
      and so: "sorted_wrt (<) (map fst (starting s))"
      by (simp_all add: dev_inv_def)
    from w' lt so list_all_less_le [OF lt] show ?thesis
      by (simp add: s' dev_inv_def)
  next
    case False
    with inv d have k: "killing s = None"
      by (cases "killing s") (auto simp: dev_inv_def)
    from st mem k al have s': "s' = s\<lparr>alive := [], proc_calls := proc_calls s @ [Exit p]\<rparr>"
      by (auto simp: proc_exit_def Let_def)
    from inv d k show ?thesis
      by (auto simp: s' dev_inv_def)
  qed
qed

lemma dev_inv_step: "dev_inv dl s \<Longrightarrow> dev_step dl a s = Some s' \<Longrightarrow> dev_inv dl s'"
  by (cases a) (auto intro: dev_inv_advance dev_inv_event dev_inv_fire dev_inv_settled dev_inv_exit)

lemma dev_reachable_inv: "dev_reachable dl s \<Longrightarrow> dev_inv dl s"
  by (induction rule: dev_reachable.induct) (auto intro: dev_inv_init dev_inv_step)

subsection \<open>Restart requests and the supervised process\<close>


















lemma inv_alive_le1: "dev_inv dl s \<Longrightarrow> length (alive s) \<le> 1"
  by (auto simp: dev_inv_def split: option.splits)

lemma leading_edge_kills:
  assumes inv: "dev_inv dl s" and le: "leading_edge (engine s)" and d: "devServer s = Some p"
  shows "\<exists>s'. dev_event dl e s = Some s' \<and> proc_calls s' = proc_calls s @ [Kill p] \<and>
     killing s' = Some p \<and> devServer s' = Some p \<and> alive s' = alive s \<and>
     isProcessing (engine s') \<and> timer (engine s') = None"
proof -
  note wi = inv [unfolded dev_inv_def, THEN conjunct1]
  note su = leading_edge_suspends [OF wi le, of e]
  from le d su show ?thesis by (simp add: dev_event_def)
qed

lemma while_killing:
  assumes inv: "dev_inv dl s" and k: "killing s = Some p" and st: "dev_step dl a s = Some s'"
  shows "if a = DExit p
     then devServer s' = None \<and> killing s' = None \<and> alive s' = [] \<and> timer (engine s') \<noteq> None
     else devServer s' = Some p \<and> killing s' = Some p \<and>
          filter is_Exec (proc_calls s') = filter is_Exec (proc_calls s)"
proof -
  note wi = inv [unfolded dev_inv_def, THEN conjunct1]
  from inv k have d: "devServer s = Some p" and aw: "awaiting (engine s) \<noteq> []"
    by (simp_all add: dev_inv_def)
  from k killing_isProcessing [OF inv] have ip: "isProcessing (engine s)" by simp
  with wi have t: "timer (engine s) = None" "timeouts (engine s) = []"
    by (auto simp: watch_inv_def)
  from ip inv have lt: "list_all (\<lambda>a. fst a < devServerRestartTimes s) (starting s)"
    by (simp add: dev_inv_def window_open_def)
  from inv d have al: "alive s = [] \<or> alive s = [p]" by (simp add: dev_inv_def)
  show ?thesis
  proof (cases a)
    case (DAdvance n)
    with st k d show ?thesis by auto
  next
    case (DEvent e)
    with st k d ip show ?thesis
      by (auto simp: dev_event_def leading_edge_def delayWatch_onWillTrigger_def)
  next
    case DFire
    with st t show ?thesis by (simp add: dev_fire_def fire_def)
  next
    case DSettled
    from st DSettled obtain b rest where
      f: "filter (\<lambda>a. snd a \<le> now (engine s)) (starting s) = b # rest"
      by (auto simp: startDevServer_resume_def split: list.splits)
    from first_due_member [OF f] lt have "fst b \<noteq> devServerRestartTimes s"
      by (auto simp: list_all_iff)
    with st DSettled f have "s' = s\<lparr>starting := remove1 b (starting s)\<rparr>"
      by (auto simp: startDevServer_resume_def Let_def)
    with DSettled k d show ?thesis by simp
  next
    case (DExit q)
    from st DExit have mem: "q \<in> set (alive s)"
      by (auto simp: proc_exit_def split: if_splits)
    with al have q: "q = p" and al': "alive s = [p]" by auto
    from settled_fields [OF wi aw] obtain w' where
      w': "onWillTrigger_settled (dev_options dl) Returns (engine s) = Some w'" "timer w' \<noteq> None"
      by blast
    from st DExit q k al' w' have "s' = s\<lparr>alive := [], proc_calls := proc_calls s @ [Exit p],
        killing := None, devServer := None, engine := w'\<rparr>"
      by (auto simp: proc_exit_def handler_resumes_def Let_def)
    with DExit q w'(2) show ?thesis by simp
  qed
qed

lemma spawn_only_when_free:
  assumes inv: "dev_inv dl s" and st: "dev_step dl DSettled s = Some s'" and ch: "alive s' \<noteq> alive s"
  shows "alive s = [] \<and> killing s = None \<and> devServer s = None \<and> \<not> window_open (engine s) \<and>
     alive s' = [next_pid s] \<and> devServer s' = Some (next_pid s) \<and>
     proc_calls s' = proc_calls s @ [Exec (next_pid s)]"
proof -
  from st obtain b rest where
    f: "filter (\<lambda>a. snd a \<le> now (engine s)) (starting s) = b # rest"
    by (auto simp: startDevServer_resume_def split: list.splits)
  from st f ch have cur: "fst b = devServerRestartTimes s"
    by (auto simp: startDevServer_resume_def Let_def split: if_splits)
  with st f have s': "s' = s\<lparr>starting := remove1 b (starting s),
        devServer := Some (next_pid s), alive := alive s @ [next_pid s],
        next_pid := Suc (next_pid s), proc_calls := proc_calls s @ [Exec (next_pid s)]\<rparr>"
    by (auto simp: startDevServer_resume_def Let_def)
  from first_due_member [OF f] cur have ex: "list_ex (\<lambda>b. fst b = devServerRestartTimes s) (starting s)"
    by (auto simp: list_ex_iff)
  with inv have d: "devServer s = None" by (simp add: dev_inv_def)
  with inv have al: "alive s = []" by (simp add: dev_inv_def)
  from inv ex have nw: "\<not> window_open (engine s)"
    by (auto simp: dev_inv_def dest: list_all_less_no_ex)
  then have "\<not> isProcessing (engine s)" by (simp add: window_open_def)
  with killing_isProcessing [OF inv] have k: "killing s = None" by simp
  from d al nw k show ?thesis by (simp add: s')
qed

text \<open>
  Claim C6. In every state the session can reach, at most one child process is alive.
  On a leading edge that finds a process in \<open>devServer\<close> the callback kills it and waits:
  \<open>devServer\<close> keeps the process and the handler stays suspended. While the callback
  waits, no step starts a process or changes \<open>devServer\<close>, other than the exit of that
  process, which clears \<open>devServer\<close> and lets the handler arm the timer. A process is
  started only in a state in which none is alive, \<open>devServer\<close> is empty, the callback is
  not waiting and no window of the watch is open: after the kill of the same burst has
  completed and its trigger has run.
\<close>

theorem at_most_one_process:
  assumes "dev_reachable dl s"
  shows "length (alive s) \<le> 1 \<and>
    (\<forall>e p. leading_edge (engine s) \<and> devServer s = Some p \<longrightarrow>
       (\<exists>s'. dev_event dl e s = Some s' \<and> proc_calls s' = proc_calls s @ [Kill p] \<and>
          killing s' = Some p \<and> devServer s' = Some p \<and> alive s' = alive s \<and>
          isProcessing (engine s') \<and> timer (engine s') = None)) \<and>
    (\<forall>p a s'. killing s = Some p \<and> dev_step dl a s = Some s' \<longrightarrow>
       (if a = DExit p
        then devServer s' = None \<and> killing s' = None \<and> alive s' = [] \<and> timer (engine s') \<noteq> None
        else devServer s' = Some p \<and> killing s' = Some p \<and>
             filter is_Exec (proc_calls s') = filter is_Exec (proc_calls s))) \<and>
    (\<forall>s'. dev_step dl DSettled s = Some s' \<and> alive s' \<noteq> alive s \<longrightarrow>
       alive s = [] \<and> killing s = None \<and> devServer s = None \<and> \<not> window_open (engine s) \<and>
       alive s' = [next_pid s] \<and> devServer s' = Some (next_pid s) \<and>
       proc_calls s' = proc_calls s @ [Exec (next_pid s)])"
proof -
  note inv = dev_reachable_inv [OF assms]
  have b: "\<forall>e p. leading_edge (engine s) \<and> devServer s = Some p \<longrightarrow>
       (\<exists>s'. dev_event dl e s = Some s' \<and> proc_calls s' = proc_calls s @ [Kill p] \<and>
          killing s' = Some p \<and> devServer s' = Some p \<and> alive s' = alive s \<and>
          isProcessing (engine s') \<and> timer (engine s') = None)"
    by (intro allI impI, elim conjE) (rule leading_edge_kills [OF inv])
  have c: "\<forall>p a s'. killing s = Some p \<and> dev_step dl a s = Some s' \<longrightarrow>
       (if a = DExit p
        then devServer s' = None \<and> killing s' = None \<and> alive s' = [] \<and> timer (engine s') \<noteq> None
        else devServer s' = Some p \<and> killing s' = Some p \<and>
             filter is_Exec (proc_calls s') = filter is_Exec (proc_calls s))"
    by (intro allI impI, elim conjE) (rule while_killing [OF inv])
  have d: "\<forall>s'. dev_step dl DSettled s = Some s' \<and> alive s' \<noteq> alive s \<longrightarrow>
       alive s = [] \<and> killing s = None \<and> devServer s = None \<and> \<not> window_open (engine s) \<and>
       alive s' = [next_pid s] \<and> devServer s' = Some (next_pid s) \<and>
       proc_calls s' = proc_calls s @ [Exec (next_pid s)]"
    by (intro allI impI, elim conjE) (rule spawn_only_when_free [OF inv])
  show ?thesis
    by (rule conjI [OF inv_alive_le1 [OF inv] conjI [OF b conjI [OF c d]]])
qed


lemma step_example_ready: "dev_step 1000 (DAdvance 200) init_dev = Some example_ready"
  by (simp add: init_dev_def startDevServer_def init_watch_def example_ready_def)

lemma step_example_running: "dev_step 1000 DSettled example_ready = Some example_running"
  by (simp add: example_ready_def example_running_def startDevServer_resume_def)

lemma step_example_killing: "dev_step 1000 (DEvent event_a) example_running = Some example_killing"
  by (simp add: example_running_def example_killing_def dev_event_def leading_edge_def
      delayWatch_onWillTrigger_def dev_options_def)

lemma reachable_example_ready: "dev_reachable 1000 example_ready"
  by (rule dev_reachable_step [OF dev_reachable_init step_example_ready])

lemma reachable_example_running: "dev_reachable 1000 example_running"
  by (rule dev_reachable_step [OF reachable_example_ready step_example_running])

lemma reachable_example_killing: "dev_reachable 1000 example_killing"
  by (rule dev_reachable_step [OF reachable_example_running step_example_killing])

theorem at_most_one_process_witness:
  "dev_reachable 1000 example_running \<and>
   leading_edge (engine example_running) \<and> devServer example_running = Some 0 \<and>
   length (alive example_running) \<le> 1 \<and>
   (\<exists>s'. dev_event 1000 event_a example_running = Some s' \<and>
      proc_calls s' = [Exec 0, Kill 0] \<and> killing s' = Some 0 \<and> devServer s' = Some 0) \<and>
   dev_reachable 1000 example_killing \<and> killing example_killing = Some 0 \<and>
   (\<exists>s'. dev_step 1000 (DExit 0) example_killing = Some s' \<and>
      devServer s' = None \<and> alive s' = [] \<and> timer (engine s') \<noteq> None) \<and>
   dev_reachable 1000 example_ready \<and>
   dev_step 1000 DSettled example_ready = Some example_running \<and>
   alive example_running \<noteq> alive example_ready \<and>
   alive example_ready = [] \<and> killing example_ready = None \<and> devServer example_ready = None"
proof -
  have r: "leading_edge (engine example_running)" "devServer example_running = Some 0"
    "proc_calls example_running = [Exec 0]"
    by (simp_all add: example_running_def leading_edge_def)
  have k: "killing example_killing = Some 0"
    by (simp add: example_killing_def)
  obtain s' where x: "dev_step 1000 (DExit 0) example_killing = Some s'"
    by (auto simp: example_killing_def proc_exit_def handler_resumes_def
        onWillTrigger_settled_def)
  have ch: "alive example_running \<noteq> alive example_ready"
    by (simp add: example_running_def example_ready_def)
  note m1 = at_most_one_process [OF reachable_example_running]
  note m2 = at_most_one_process [OF reachable_example_killing]
  note m3 = at_most_one_process [OF reachable_example_ready]
  note 1 = m1 [THEN conjunct1]
  from m1 [THEN conjunct2, THEN conjunct1, rule_format, OF conjI [OF r(1) r(2)], of event_a]
  have 2: "\<exists>s'. dev_event 1000 event_a example_running = Some s' \<and>
      proc_calls s' = [Exec 0, Kill 0] \<and> killing s' = Some 0 \<and> devServer s' = Some 0"
    by (auto simp: r(3))
  from m2 [THEN conjunct2, THEN conjunct2, THEN conjunct1, rule_format, OF conjI [OF k x]] x
  have 3: "\<exists>s'. dev_step 1000 (DExit 0) example_killing = Some s' \<and>
      devServer s' = None \<and> alive s' = [] \<and> timer (engine s') \<noteq> None"
    by simp
  note 4 = m3 [THEN conjunct2, THEN conjunct2, THEN conjunct2, rule_format,
      OF conjI [OF step_example_running ch]]
  from reachable_example_running r 1 2 reachable_example_killing k 3 reachable_example_ready
    step_example_running ch 4
  show ?thesis by simp
qed

end
